theory Spec2Isabelle
  imports Complex_Main "HOL-Library.Word"
begin

section \<open>JavaScript numbers\<close>

text \<open>
  The filter code of \<^verbatim>\<open>app.js\<close> computes with JavaScript numbers, which are IEEE 754
  doubles. A finite number is modelled by the real it denotes, next to the two infinities
  and NaN, and every arithmetic operation rounds its exact result to the nearest double, a
  tie going to the even significand: \<open>roundBinary p emin\<close> is this rounding for a format
  with \<open>p\<close> significant bits whose least positive number is \<open>2\<^sup>e\<^sup>m\<^sup>i\<^sup>n\<close>, so that a result
  below the normal range is rounded to a multiple of \<open>2\<^sup>e\<^sup>m\<^sup>i\<^sup>n\<close> and may underflow to 0, and
  \<open>overflow emax\<close> turns a rounded result of magnitude \<open>2\<^sup>e\<^sup>m\<^sup>a\<^sup>x\<close> or more into an
  infinity. The doubles (\<open>dbl\<close>, \<open>toDouble\<close>) have \<open>p = 53\<close>, \<open>emin = - 1074\<close> and
  \<open>emax = 1024\<close>; the 32-bit floats that a \<^verbatim>\<open>Float32Array\<close> stores (\<open>flt\<close>,
  \<open>toFloat32\<close>) have \<open>p = 24\<close>, \<open>emin = - 149\<close> and \<open>emax = 128\<close>.

  The sign of zero is not modelled: a zero divisor counts as \<open>+0\<close>, which is what every
  divisor of this program is when it is zero (a doubled square, or a sum that starts from
  \<open>+0\<close>). The loop counters and the array indices of the program are small integers, on
  which the arithmetic of doubles is exact; they are modelled as integers.
\<close>

datatype jsnum = Fin real | PInf | NInf | NaN

definition roundTiesToEven :: "real \<Rightarrow> int" where
  "roundTiesToEven a =
     (let f = \<lfloor>a\<rfloor> in
      if a - of_int f < 1 / 2 then f
      else if 1 / 2 < a - of_int f then f + 1
      else if even f then f else f + 1)"

definition roundBinary :: "nat \<Rightarrow> int \<Rightarrow> real \<Rightarrow> real" where
  "roundBinary p emin x =
     (if x = 0 then 0
      else let e = max emin (\<lfloor>log 2 \<bar>x\<bar>\<rfloor> - int p + 1)
           in of_int (roundTiesToEven (x / 2 powi e)) * 2 powi e)"

definition overflow :: "int \<Rightarrow> real \<Rightarrow> jsnum" where
  "overflow emax r =
     (if 2 powi emax \<le> r then PInf else if r \<le> - (2 powi emax) then NInf else Fin r)"

definition dbl :: "real \<Rightarrow> real" where
  "dbl x = roundBinary 53 (- 1074) x"

definition flt :: "real \<Rightarrow> real" where
  "flt x = roundBinary 24 (- 149) x"

definition toDouble :: "real \<Rightarrow> jsnum" where
  "toDouble x = overflow 1024 (dbl x)"

definition toFloat32 :: "real \<Rightarrow> jsnum" where
  "toFloat32 x = overflow 128 (flt x)"

text \<open>The conversion of a number to a 32-bit float (\<^verbatim>\<open>Math.fround\<close>).\<close>

fun fround :: "jsnum \<Rightarrow> jsnum" where
  "fround (Fin a) = toFloat32 a"
| "fround x = x"

fun jsneg :: "jsnum \<Rightarrow> jsnum" where
  "jsneg (Fin a) = Fin (- a)"
| "jsneg PInf = NInf"
| "jsneg NInf = PInf"
| "jsneg NaN = NaN"

fun jsadd :: "jsnum \<Rightarrow> jsnum \<Rightarrow> jsnum" where
  "jsadd (Fin a) (Fin b) = toDouble (a + b)"
| "jsadd NaN _ = NaN"
| "jsadd _ NaN = NaN"
| "jsadd PInf NInf = NaN"
| "jsadd NInf PInf = NaN"
| "jsadd PInf _ = PInf"
| "jsadd _ PInf = PInf"
| "jsadd NInf _ = NInf"
| "jsadd _ NInf = NInf"

definition jssub :: "jsnum \<Rightarrow> jsnum \<Rightarrow> jsnum" where
  "jssub a b = jsadd a (jsneg b)"

fun jsmul :: "jsnum \<Rightarrow> jsnum \<Rightarrow> jsnum" where
  "jsmul (Fin a) (Fin b) = toDouble (a * b)"
| "jsmul NaN _ = NaN"
| "jsmul _ NaN = NaN"
| "jsmul (Fin a) PInf = (if a = 0 then NaN else if 0 < a then PInf else NInf)"
| "jsmul (Fin a) NInf = (if a = 0 then NaN else if 0 < a then NInf else PInf)"
| "jsmul PInf (Fin b) = (if b = 0 then NaN else if 0 < b then PInf else NInf)"
| "jsmul NInf (Fin b) = (if b = 0 then NaN else if 0 < b then NInf else PInf)"
| "jsmul PInf PInf = PInf"
| "jsmul NInf NInf = PInf"
| "jsmul PInf NInf = NInf"
| "jsmul NInf PInf = NInf"

fun jsdiv :: "jsnum \<Rightarrow> jsnum \<Rightarrow> jsnum" where
  "jsdiv (Fin a) (Fin b) =
     (if b \<noteq> 0 then toDouble (a / b) else if a = 0 then NaN else if 0 < a then PInf else NInf)"
| "jsdiv NaN _ = NaN"
| "jsdiv _ NaN = NaN"
| "jsdiv (Fin a) PInf = Fin 0"
| "jsdiv (Fin a) NInf = Fin 0"
| "jsdiv PInf (Fin b) = (if 0 \<le> b then PInf else NInf)"
| "jsdiv NInf (Fin b) = (if 0 \<le> b then NInf else PInf)"
| "jsdiv _ _ = NaN"

text \<open>
  \<^verbatim>\<open>Math.exp\<close>. The language leaves the accuracy of this function to the
  implementation, so the model takes the function as a parameter: \<open>mexp a\<close> is the real
  number that the implementation computes for the finite argument \<open>a\<close>, and the result of
  \<^verbatim>\<open>Math.exp\<close> is the double nearest to it. With \<open>mexp = exp\<close> the result is the
  correctly rounded exponential. A theorem that depends on the values of the function names
  what it assumes of \<open>mexp\<close>.
\<close>

fun jsexp :: "(real \<Rightarrow> real) \<Rightarrow> jsnum \<Rightarrow> jsnum" where
  "jsexp mexp (Fin a) = toDouble (mexp a)"
| "jsexp mexp PInf = PInf"
| "jsexp mexp NInf = Fin 0"
| "jsexp mexp NaN = NaN"

text \<open>The comparison \<^verbatim>\<open>a <= b\<close>; \<^verbatim>\<open>a > b\<close> is \<open>jslt b a\<close>. Both are false on NaN.\<close>

fun jsle :: "jsnum \<Rightarrow> jsnum \<Rightarrow> bool" where
  "jsle (Fin a) (Fin b) = (a \<le> b)"
| "jsle NaN _ = False"
| "jsle _ NaN = False"
| "jsle NInf _ = True"
| "jsle _ PInf = True"
| "jsle _ _ = False"

fun jslt :: "jsnum \<Rightarrow> jsnum \<Rightarrow> bool" where
  "jslt (Fin a) (Fin b) = (a < b)"
| "jslt NaN _ = False"
| "jslt _ NaN = False"
| "jslt PInf _ = False"
| "jslt _ NInf = False"
| "jslt _ _ = True"

text \<open>\<^verbatim>\<open>Math.max\<close> and \<^verbatim>\<open>Math.min\<close> of two numbers: NaN if either is.\<close>

definition jsmax :: "jsnum \<Rightarrow> jsnum \<Rightarrow> jsnum" where
  "jsmax a b = (if a = NaN \<or> b = NaN then NaN else if jsle a b then b else a)"

definition jsmin :: "jsnum \<Rightarrow> jsnum \<Rightarrow> jsnum" where
  "jsmin a b = (if a = NaN \<or> b = NaN then NaN else if jsle a b then a else b)"

text \<open>
  \<^verbatim>\<open>Math.round\<close>: the nearest integer, a tie going up. The result is exact: the
  integer nearest to a double is a double.
\<close>

fun jsround :: "jsnum \<Rightarrow> jsnum" where
  "jsround (Fin a) = Fin (of_int \<lfloor>a + 1 / 2\<rfloor>)"
| "jsround x = x"

section \<open>Typed arrays\<close>

text \<open>
  The conversion a \<^verbatim>\<open>Uint8ClampedArray\<close> applies to a number stored in it: NaN
  becomes 0, the value is clamped to \<open>[0, 255]\<close> and rounded to the nearest integer, a tie
  going to the even one.
\<close>

fun toUint8Clamp :: "jsnum \<Rightarrow> 8 word" where
  "toUint8Clamp (Fin a) =
     (if a \<le> 0 then 0 else if 255 \<le> a then 255 else word_of_int (roundTiesToEven a))"
| "toUint8Clamp PInf = 255"
| "toUint8Clamp NInf = 0"
| "toUint8Clamp NaN = 0"

text \<open>
  An element read \<^verbatim>\<open>a[i]\<close> outside a typed array is \<^verbatim>\<open>undefined\<close>
  (\<open>None\<close>), and an element write outside it is ignored. Every read of the program goes
  into arithmetic or into another typed array, where \<^verbatim>\<open>undefined\<close> is converted
  to NaN: \<open>f32_get\<close> and \<open>u8_get\<close> are the reads of a \<^verbatim>\<open>Float32Array\<close> and of a
  \<^verbatim>\<open>Uint8ClampedArray\<close> as numbers. A write to a \<^verbatim>\<open>Float32Array\<close> rounds the
  number to a 32-bit float.
\<close>

definition ta_get :: "'a list \<Rightarrow> int \<Rightarrow> 'a option" where
  "ta_get a i = (if 0 \<le> i \<and> i < int (length a) then Some (a ! nat i) else None)"

definition ta_set :: "'a list \<Rightarrow> int \<Rightarrow> 'a \<Rightarrow> 'a list" where
  "ta_set a i v = (if 0 \<le> i \<and> i < int (length a) then a[nat i := v] else a)"

definition f32_get :: "jsnum list \<Rightarrow> int \<Rightarrow> jsnum" where
  "f32_get a i = (case ta_get a i of None \<Rightarrow> NaN | Some v \<Rightarrow> v)"

definition f32_set :: "jsnum list \<Rightarrow> int \<Rightarrow> jsnum \<Rightarrow> jsnum list" where
  "f32_set a i v = ta_set a i (fround v)"

definition u8_get :: "8 word list \<Rightarrow> int \<Rightarrow> jsnum" where
  "u8_get a i = (case ta_get a i of None \<Rightarrow> NaN | Some b \<Rightarrow> Fin (real (unat b)))"

definition u8_set :: "8 word list \<Rightarrow> int \<Rightarrow> jsnum \<Rightarrow> 8 word list" where
  "u8_set a i v = ta_set a i (toUint8Clamp v)"

datatype error = RangeError | TypeError | DOMException

text \<open>\<^verbatim>\<open>new Float32Array(n)\<close>: zero-filled; a negative length raises RangeError.\<close>

definition newFloat32Array :: "int \<Rightarrow> error + jsnum list" where
  "newFloat32Array n = (if n < 0 then Inl RangeError else Inr (replicate (nat n) (Fin 0)))"

section \<open>The kernel\<close>

definition buildKernel :: "(real \<Rightarrow> real) \<Rightarrow> int \<Rightarrow> jsnum \<Rightarrow> error + (jsnum list \<times> int)" where
  "buildKernel mexp sz sigma =
     (let radius = sz div 2 in
      case newFloat32Array sz of
        Inl e \<Rightarrow> Inl e
      | Inr kernel0 \<Rightarrow>
          let sigma2 = jsmul sigma sigma;
              (kernel1, sum) =
                fold (\<lambda>i (kernel, sum).
                        let value = jsexp mexp (jsdiv (jsneg (jsmul (Fin (of_int i)) (Fin (of_int i))))
                                                      (jsmul (Fin 2) sigma2))
                        in (f32_set kernel (i + radius) value, jsadd sum value))
                     [- radius..radius] (kernel0, Fin 0);
              kernel2 =
                fold (\<lambda>i kernel. f32_set kernel i (jsdiv (f32_get kernel i) sum))
                     [0..sz - 1] kernel1
          in Inr (kernel2, radius))"

section \<open>Pixel buffers\<close>

text \<open>
  The pixel arrays are objects that the filter stages share with their callers, so they
  live in a store: an address is an index into the list of the arrays allocated so far.
  An \<^verbatim>\<open>ImageData\<close> holds its dimensions and the address of its
  \<^verbatim>\<open>Uint8ClampedArray\<close>. The kernel and the intermediate buffer of the blur are
  local to one call and are plain values.
\<close>

type_synonym store = "8 word list list"

record imageData =
  width :: int
  height :: int
  data :: nat

definition deref :: "store \<Rightarrow> nat \<Rightarrow> 8 word list" where
  "deref st a = (if a < length st then st ! a else [])"

definition st_get :: "store \<Rightarrow> nat \<Rightarrow> int \<Rightarrow> jsnum" where
  "st_get st a i = u8_get (deref st a) i"

definition st_set :: "store \<Rightarrow> nat \<Rightarrow> int \<Rightarrow> jsnum \<Rightarrow> store" where
  "st_set st a i v = (if a < length st then st[a := u8_set (st ! a) i v] else st)"

text \<open>\<^verbatim>\<open>new Uint8ClampedArray(n)\<close>: a fresh zero-filled array.\<close>

definition newUint8ClampedArray :: "store \<Rightarrow> nat \<Rightarrow> nat \<times> store" where
  "newUint8ClampedArray st n = (length st, st @ [replicate n 0])"

text \<open>
  \<^verbatim>\<open>new ImageData(array, sw, sh)\<close> wraps the array without copying it. The
  constructor of the platform raises a DOMException unless the array holds
  \<open>4 \<sqdot> sw \<sqdot> sh\<close> samples, with \<open>sw\<close> and \<open>sh\<close> positive.
\<close>

definition newImageData :: "store \<Rightarrow> nat \<Rightarrow> int \<Rightarrow> int \<Rightarrow> error + imageData" where
  "newImageData st a sw sh =
     (if 0 < sw \<and> 0 < sh \<and> int (length (deref st a)) = 4 * sw * sh
      then Inr \<lparr>width = sw, height = sh, data = a\<rparr>
      else Inl DOMException)"

definition clamp :: "int \<Rightarrow> int \<Rightarrow> int \<Rightarrow> int" where
  "clamp v lo hi = max lo (min hi v)"

text \<open>The same function \<^verbatim>\<open>clamp\<close> where it is applied to the result of \<^verbatim>\<open>Math.round\<close>.\<close>

definition clampNum :: "jsnum \<Rightarrow> jsnum \<Rightarrow> jsnum \<Rightarrow> jsnum" where
  "clampNum v lo hi = jsmax lo (jsmin hi v)"

section \<open>The blur\<close>

text \<open>The loop over \<open>k\<close> of the first pass (lines 151 to 160), for the pixel \<open>(x, y)\<close>.\<close>

definition blurWindowX ::
  "store \<Rightarrow> nat \<Rightarrow> int \<Rightarrow> jsnum list \<Rightarrow> int \<Rightarrow> int \<Rightarrow> int
     \<Rightarrow> jsnum \<times> jsnum \<times> jsnum \<times> jsnum" where
  "blurWindowX st d w weights radius y x =
     fold (\<lambda>k (r, g, b, a).
             let px = clamp (x + k) 0 (w - 1);
                 idx = (y * w + px) * 4;
                 weight = f32_get weights (k + radius)
             in (jsadd r (jsmul (st_get st d idx) weight),
                 jsadd g (jsmul (st_get st d (idx + 1)) weight),
                 jsadd b (jsmul (st_get st d (idx + 2)) weight),
                 jsadd a (jsmul (st_get st d (idx + 3)) weight)))
          [- radius..radius] (Fin 0, Fin 0, Fin 0, Fin 0)"

text \<open>The first pass (lines 144 to 168): rows of the image into \<open>temp\<close>.\<close>

definition blurPassX ::
  "store \<Rightarrow> nat \<Rightarrow> int \<Rightarrow> int \<Rightarrow> jsnum list \<Rightarrow> int \<Rightarrow> jsnum list \<Rightarrow> jsnum list" where
  "blurPassX st d w h weights radius temp0 =
     fold (\<lambda>y. fold (\<lambda>x temp.
                  case blurWindowX st d w weights radius y x of (r, g, b, a) \<Rightarrow>
                    let outIdx = (y * w + x) * 4
                    in f32_set (f32_set (f32_set (f32_set temp outIdx r) (outIdx + 1) g)
                                  (outIdx + 2) b) (outIdx + 3) a)
                [0..w - 1])
          [0..h - 1] temp0"

text \<open>The loop over \<open>k\<close> of the second pass (lines 177 to 186).\<close>

definition blurWindowY ::
  "jsnum list \<Rightarrow> int \<Rightarrow> int \<Rightarrow> jsnum list \<Rightarrow> int \<Rightarrow> int \<Rightarrow> int
     \<Rightarrow> jsnum \<times> jsnum \<times> jsnum \<times> jsnum" where
  "blurWindowY temp w h weights radius y x =
     fold (\<lambda>k (r, g, b, a).
             let py = clamp (y + k) 0 (h - 1);
                 idx = (py * w + x) * 4;
                 weight = f32_get weights (k + radius)
             in (jsadd r (jsmul (f32_get temp idx) weight),
                 jsadd g (jsmul (f32_get temp (idx + 1)) weight),
                 jsadd b (jsmul (f32_get temp (idx + 2)) weight),
                 jsadd a (jsmul (f32_get temp (idx + 3)) weight)))
          [- radius..radius] (Fin 0, Fin 0, Fin 0, Fin 0)"

text \<open>The second pass (lines 170 to 194): columns of \<open>temp\<close> into the array \<open>output\<close>.\<close>

definition blurPassY ::
  "jsnum list \<Rightarrow> int \<Rightarrow> int \<Rightarrow> jsnum list \<Rightarrow> int \<Rightarrow> nat \<Rightarrow> store \<Rightarrow> store" where
  "blurPassY temp w h weights radius output st0 =
     fold (\<lambda>y. fold (\<lambda>x st.
                  case blurWindowY temp w h weights radius y x of (r, g, b, a) \<Rightarrow>
                    let outIdx = (y * w + x) * 4
                    in st_set (st_set (st_set (st_set st output outIdx r) output (outIdx + 1) g)
                                 output (outIdx + 2) b) output (outIdx + 3) a)
                [0..w - 1])
          [0..h - 1] st0"

definition gaussianBlur ::
  "(real \<Rightarrow> real) \<Rightarrow> store \<Rightarrow> imageData \<Rightarrow> int \<Rightarrow> jsnum \<Rightarrow> error + (imageData \<times> store)" where
  "gaussianBlur mexp st imageData sz sigma =
     (let w = width imageData; h = height imageData; d = data imageData in
      case buildKernel mexp sz sigma of
        Inl e \<Rightarrow> Inl e
      | Inr (weights, radius) \<Rightarrow>
          let temp0 = replicate (length (deref st d)) (Fin 0);
              (output, st0) = newUint8ClampedArray st (length (deref st d));
              temp = blurPassX st0 d w h weights radius temp0;
              st1 = blurPassY temp w h weights radius output st0
          in case newImageData st1 output w h of
               Inl e \<Rightarrow> Inl e
             | Inr blurred \<Rightarrow> Inr (blurred, st1))"

section \<open>The sharpen\<close>

text \<open>The body of the loops of \<^verbatim>\<open>sharpenImage\<close> (lines 207 to 220), for the pixel \<open>(x, y)\<close>.\<close>

definition sharpenPixel ::
  "nat \<Rightarrow> int \<Rightarrow> int \<Rightarrow> jsnum \<Rightarrow> nat \<Rightarrow> int \<Rightarrow> int \<Rightarrow> store \<Rightarrow> store" where
  "sharpenPixel d w h amount output y x st0 =
     (let idx = (y * w + x) * 4;
          st1 = fold (\<lambda>channel st.
                   let center = st_get st d (idx + channel);
                       left = st_get st d ((y * w + clamp (x - 1) 0 (w - 1)) * 4 + channel);
                       right = st_get st d ((y * w + clamp (x + 1) 0 (w - 1)) * 4 + channel);
                       top = st_get st d ((clamp (y - 1) 0 (h - 1) * w + x) * 4 + channel);
                       bottom = st_get st d ((clamp (y + 1) 0 (h - 1) * w + x) * 4 + channel);
                       sharpened =
                         jssub (jsmul center (jsadd (Fin 1) (jsmul amount (Fin 4))))
                               (jsmul amount (jsadd (jsadd (jsadd left right) top) bottom))
                   in st_set st output (idx + channel)
                        (clampNum (jsround sharpened) (Fin 0) (Fin 255)))
                 [0..2] st0
      in st_set st1 output (idx + 3) (st_get st1 d (idx + 3)))"

definition sharpenImage ::
  "store \<Rightarrow> imageData \<Rightarrow> jsnum \<Rightarrow> error + (imageData \<times> store)" where
  "sharpenImage st imageData amount =
     (if jsle amount (Fin 0) then Inr (imageData, st)
      else
        let w = width imageData; h = height imageData; d = data imageData;
            (output, st0) = newUint8ClampedArray st (length (deref st d));
            st1 = fold (\<lambda>y. fold (\<lambda>x. sharpenPixel d w h amount output y x) [0..w - 1])
                       [0..h - 1] st0
        in case newImageData st1 output w h of
             Inl e \<Rightarrow> Inl e
           | Inr sharpened \<Rightarrow> Inr (sharpened, st1))"

section \<open>The pipeline\<close>

text \<open>
  \<^verbatim>\<open>formatKernel\<close> (lines 29 to 34) returns \<open>sigma\<close>; the two labels it sets are
  not modelled. The literal \<^verbatim>\<open>0.15\<close> is the double nearest to \<open>15 / 100\<close>.
\<close>

definition formatKernel :: "int \<Rightarrow> jsnum" where
  "formatKernel sz = jsmax (toDouble (15 / 100)) (jsdiv (Fin (of_int sz)) (Fin 6))"

text \<open>
  The state of the page that \<^verbatim>\<open>runFilter\<close> reads and writes: the store of the
  pixel arrays, the three variables of the module, the values of the two sliders as
  numbers, the samples that the output canvas shows (what the last
  \<^verbatim>\<open>putImageData\<close> copied to it), and the text of the status line.
\<close>

record app =
  heap :: store
  originalImageData :: "imageData option"
  currentImageData :: "imageData option"
  isProcessing :: bool
  kernelSizeValue :: int
  sharpenAmountValue :: jsnum
  outputCanvas :: "8 word list"
  status :: string

text \<open>
  The body of the \<^verbatim>\<open>try\<close> block (lines 246 to 251) with the values \<open>size\<close>,
  \<open>sigma\<close> and \<open>sharpen\<close> that the callback has captured. An exception leaves the block
  at once, as \<open>Inl\<close>; with no image loaded, the first use of \<^verbatim>\<open>null\<close> as an image
  raises TypeError.
\<close>

definition filterBody :: "(real \<Rightarrow> real) \<Rightarrow> int \<times> jsnum \<times> jsnum \<Rightarrow> app \<Rightarrow> error + app" where
  "filterBody mexp p a =
     (case p of (sz, sigma, sharpen) \<Rightarrow>
        case originalImageData a of
          None \<Rightarrow> Inl TypeError
        | Some orig \<Rightarrow>
            (case (if 1 < sz then gaussianBlur mexp (heap a) orig sz sigma else Inr (orig, heap a)) of
               Inl e \<Rightarrow> Inl e
             | Inr (blurred, h1) \<Rightarrow>
                 (case (if jslt (Fin 0) sharpen then sharpenImage h1 blurred sharpen
                        else Inr (blurred, h1)) of
                    Inl e \<Rightarrow> Inl e
                  | Inr (filtered, h2) \<Rightarrow>
                      Inr (a\<lparr>heap := h2,
                             outputCanvas := deref h2 (data filtered),
                             currentImageData := Some filtered,
                             status := ''Filter applied.''\<rparr>))))"

text \<open>
  The callback that \<^verbatim>\<open>runFilter\<close> hands to \<^verbatim>\<open>requestAnimationFrame\<close>
  (lines 244 to 258): the \<^verbatim>\<open>try\<close> block, the \<^verbatim>\<open>catch\<close> clause, which
  reports the failure in the status line, and the \<^verbatim>\<open>finally\<close> clause. Arrays that
  a failed run had allocated are unreachable and are dropped from the store.
\<close>

definition filterFrame :: "(real \<Rightarrow> real) \<Rightarrow> int \<times> jsnum \<times> jsnum \<Rightarrow> app \<Rightarrow> app" where
  "filterFrame mexp p a =
     (case filterBody mexp p a of
        Inl e \<Rightarrow> a\<lparr>status := ''Filtering failed. Try smaller settings.''\<rparr>
      | Inr a' \<Rightarrow> a')\<lparr>isProcessing := False\<rparr>"

text \<open>
  \<^verbatim>\<open>runFilter\<close> up to its return (lines 227 to 244): the new state and, when it
  has scheduled the callback, the values the callback has captured.
\<close>

definition runFilter :: "app \<Rightarrow> app \<times> (int \<times> jsnum \<times> jsnum) option" where
  "runFilter a =
     (case originalImageData a of
        None \<Rightarrow> (a, None)
      | Some orig \<Rightarrow>
          if isProcessing a then (a, None)
          else
            let sz = kernelSizeValue a;
                sigma = formatKernel sz;
                sharpen = sharpenAmountValue a
            in if sz \<le> 1 \<and> jsle sharpen (Fin 0)
               then (a\<lparr>outputCanvas := deref (heap a) (data orig),
                       currentImageData := Some orig\<rparr>, None)
               else (a\<lparr>isProcessing := True, status := ''Filtering...''\<rparr>,
                     Some (sz, sigma, sharpen)))"

text \<open>A call of \<^verbatim>\<open>runFilter\<close> followed, with no event in between, by the callback it scheduled.\<close>

definition runFilterAndFrame :: "(real \<Rightarrow> real) \<Rightarrow> app \<Rightarrow> app" where
  "runFilterAndFrame mexp a =
     (case runFilter a of
        (a', None) \<Rightarrow> a'
      | (a', Some p) \<Rightarrow> filterFrame mexp p a')"

section \<open>The loops in closed form\<close>

text \<open>
  The sum that the loop over \<open>k\<close> of either pass of the blur accumulates for one channel:
  \<open>sample k\<close> is the sample the loop reads at the offset \<open>k\<close>, and the weight is read at
  index \<open>k + radius\<close> of the kernel array, as the code does.
\<close>

definition windowSum :: "jsnum list \<Rightarrow> int \<Rightarrow> (int \<Rightarrow> jsnum) \<Rightarrow> jsnum" where
  "windowSum ws radius sample =
     fold (\<lambda>k acc. jsadd acc (jsmul (sample k) (f32_get ws (k + radius))))
          [- radius..radius] (Fin 0)"

text \<open>
  The number that \<^verbatim>\<open>sharpenImage\<close> stores for channel \<open>c\<close> of the pixel \<open>(x, y)\<close>
  of the source array: the alpha sample for channel 3, the rounded and clamped
  combination of the sample and its four neighbours otherwise.
\<close>

definition sharpenValue :: "8 word list \<Rightarrow> int \<Rightarrow> int \<Rightarrow> jsnum \<Rightarrow> int \<Rightarrow> int \<Rightarrow> int \<Rightarrow> jsnum" where
  "sharpenValue src w h amount y x c =
     (if c = 3 then u8_get src ((y * w + x) * 4 + 3)
      else clampNum (jsround
             (jssub (jsmul (u8_get src ((y * w + x) * 4 + c)) (jsadd (Fin 1) (jsmul amount (Fin 4))))
                (jsmul amount
                   (jsadd (jsadd (jsadd (u8_get src ((y * w + clamp (x - 1) 0 (w - 1)) * 4 + c))
                                        (u8_get src ((y * w + clamp (x + 1) 0 (w - 1)) * 4 + c)))
                                 (u8_get src ((clamp (y - 1) 0 (h - 1) * w + x) * 4 + c)))
                          (u8_get src ((clamp (y + 1) 0 (h - 1) * w + x) * 4 + c))))))
             (Fin 0) (Fin 255))"

section \<open>Definitions used to state the properties\<close>

text \<open>The weights of a kernel added up in double arithmetic, from the left starting from 0.\<close>

definition kernelSum :: "jsnum list \<Rightarrow> jsnum" where
  "kernelSum ws = fold (\<lambda>w acc. jsadd acc w) ws (Fin 0)"

text \<open>
  The Gaussian weight at the offset \<open>i\<close> before normalisation,
  \<open>exp (- i\<^sup>2 / (2 sigma\<^sup>2))\<close>, in double arithmetic, and the sum of these values over
  the offsets from \<open>- radius\<close> to \<open>radius\<close>, added up in the order of the offsets.
\<close>

definition gaussValue :: "(real \<Rightarrow> real) \<Rightarrow> jsnum \<Rightarrow> int \<Rightarrow> jsnum" where
  "gaussValue mexp sigma i =
     jsexp mexp (jsdiv (jsneg (jsmul (Fin (of_int i)) (Fin (of_int i))))
                       (jsmul (Fin 2) (jsmul sigma sigma)))"

definition gaussSum :: "(real \<Rightarrow> real) \<Rightarrow> jsnum \<Rightarrow> int \<Rightarrow> jsnum" where
  "gaussSum mexp sigma radius =
     fold (\<lambda>i s. jsadd s (gaussValue mexp sigma i)) [- radius..radius] (Fin 0)"

text \<open>
  A well-formed image of a store: its array is allocated and holds four samples for each
  of the \<open>width \<sqdot> height\<close> pixels, and both dimensions are positive. Every
  \<^verbatim>\<open>ImageData\<close> of the platform is of this form.
\<close>

definition validImage :: "store \<Rightarrow> imageData \<Rightarrow> bool" where
  "validImage st img \<longleftrightarrow>
     data img < length st \<and> 0 < width img \<and> 0 < height img \<and>
     int (length (st ! data img)) = 4 * width img * height img"

text \<open>
  A one-dimensional convolution as the specification describes it, with a kernel \<open>ws\<close> of
  radius \<open>radius\<close>: every weight of the kernel, at its index \<open>j\<close>, multiplies the sample at
  the offset \<open>j - radius\<close>, and the products are summed up in floating point in the order
  of the offsets. Only the weights that the kernel holds take part.
\<close>

definition conv1d :: "jsnum list \<Rightarrow> int \<Rightarrow> (int \<Rightarrow> jsnum) \<Rightarrow> jsnum" where
  "conv1d ws radius sample =
     fold (\<lambda>j acc. jsadd acc (jsmul (sample (j - radius)) (ws ! nat j)))
          [0..int (length ws) - 1] (Fin 0)"

text \<open>
  The horizontal pass with the one-dimensional convolution \<open>cv\<close>: every sample \<open>j\<close> of the
  result, channel \<open>j mod 4\<close> of the pixel \<open>(x, y)\<close>, is the convolution along the row \<open>y\<close>,
  with the column clamped to \<open>[0, w - 1]\<close>, stored as a 32-bit float. The result has the
  shape of the image.
\<close>

definition convolveX ::
  "((int \<Rightarrow> jsnum) \<Rightarrow> jsnum) \<Rightarrow> 8 word list \<Rightarrow> int \<Rightarrow> int \<Rightarrow> jsnum list" where
  "convolveX cv src w h =
     map (\<lambda>j. let c = j mod 4; x = j div 4 mod w; y = j div 4 div w
              in fround (cv (\<lambda>k. u8_get src ((y * w + clamp (x + k) 0 (w - 1)) * 4 + c))))
         [0..4 * w * h - 1]"

text \<open>The vertical pass: the convolution along the column \<open>x\<close>, the row clamped to \<open>[0, h - 1]\<close>.\<close>

definition convolveY ::
  "((int \<Rightarrow> jsnum) \<Rightarrow> jsnum) \<Rightarrow> jsnum list \<Rightarrow> int \<Rightarrow> int \<Rightarrow> jsnum list" where
  "convolveY cv src w h =
     map (\<lambda>j. let c = j mod 4; x = j div 4 mod w; y = j div 4 div w
              in cv (\<lambda>k. f32_get src ((clamp (y + k) 0 (h - 1) * w + x) * 4 + c)))
         [0..4 * w * h - 1]"

text \<open>
  A number rounded to the nearest integer and clamped to \<open>[0, 255]\<close>, as a byte. The
  specification does not say what becomes of a NaN, which the formula of the sharpen
  yields only where it overflows; it is the byte 0 here.
\<close>

fun roundClampByte :: "jsnum \<Rightarrow> 8 word" where
  "roundClampByte (Fin a) = word_of_int (clamp (round a) 0 255)"
| "roundClampByte PInf = 255"
| "roundClampByte NInf = 0"
| "roundClampByte NaN = 0"

text \<open>
  The sharpen of the specification: sample \<open>j\<close> of the result is channel \<open>j mod 4\<close> of the
  pixel \<open>(x, y)\<close>. The alpha channel is the alpha of the source; a colour channel is
  \<open>center (1 + 4 amount) - amount (left + right + top + bottom)\<close> in double arithmetic, the
  neighbours taken with clamped coordinates, rounded to the nearest integer and clamped
  to \<open>[0, 255]\<close>.
\<close>

definition sharpenSpec :: "8 word list \<Rightarrow> int \<Rightarrow> int \<Rightarrow> jsnum \<Rightarrow> 8 word list" where
  "sharpenSpec src w h amount =
     map (\<lambda>j. let c = j mod 4; x = j div 4 mod w; y = j div 4 div w;
                  s = (\<lambda>p. Fin (real (unat (src ! nat (p * 4 + c)))))
              in if c = 3 then src ! nat j
                 else roundClampByte
                        (jssub (jsmul (s (y * w + x)) (jsadd (Fin 1) (jsmul (Fin 4) amount)))
                               (jsmul amount
                                  (jsadd (jsadd (jsadd (s (y * w + clamp (x - 1) 0 (w - 1)))
                                                       (s (y * w + clamp (x + 1) 0 (w - 1))))
                                                (s (clamp (y - 1) 0 (h - 1) * w + x)))
                                         (s (clamp (y + 1) 0 (h - 1) * w + x))))))
         [0..4 * w * h - 1]"

text \<open>The alpha samples of a pixel array, one for each pixel.\<close>

definition alphaChannel :: "8 word list \<Rightarrow> 8 word list" where
  "alphaChannel src = map (\<lambda>p. src ! (4 * p + 3)) [0..<length src div 4]"

section \<open>Rounding\<close>

lemma rte_cases:
  obtains "roundTiesToEven a = \<lfloor>a\<rfloor>" and "a - of_int \<lfloor>a\<rfloor> \<le> 1 / 2"
  | "roundTiesToEven a = \<lfloor>a\<rfloor> + 1" and "1 / 2 \<le> a - of_int \<lfloor>a\<rfloor>"
  unfolding roundTiesToEven_def Let_def
  by (cases "a - of_int \<lfloor>a\<rfloor> < 1 / 2"; cases "1 / 2 < a - of_int \<lfloor>a\<rfloor>"; cases "even \<lfloor>a\<rfloor>")
     simp_all

lemma rte_err: "\<bar>of_int (roundTiesToEven a) - a\<bar> \<le> 1 / 2"
proof (cases a rule: rte_cases)
  case 1
  have "of_int \<lfloor>a\<rfloor> \<le> a" by simp
  with 1 show ?thesis by simp
next
  case 2
  have "a < of_int \<lfloor>a\<rfloor> + 1" by linarith
  with 2 show ?thesis by simp
qed

lemma rte_int [simp]: "roundTiesToEven (of_int n) = n"
  by (simp add: roundTiesToEven_def)

lemma rte_nonneg: "0 \<le> a \<Longrightarrow> 0 \<le> roundTiesToEven a"
proof (cases a rule: rte_cases)
  case 1
  assume "0 \<le> a"
  then have "0 \<le> \<lfloor>a\<rfloor>" by simp
  with 1 show ?thesis by simp
next
  case 2
  assume "0 \<le> a"
  then have "0 \<le> \<lfloor>a\<rfloor>" by simp
  with 2 show ?thesis by simp
qed

lemma rte_nonpos: "a \<le> 0 \<Longrightarrow> roundTiesToEven a \<le> 0"
proof (cases a rule: rte_cases)
  case 1
  assume "a \<le> 0"
  then have "\<lfloor>a\<rfloor> \<le> 0" by (simp add: floor_le_zero)
  with 1 show ?thesis by simp
next
  case 2
  assume a: "a \<le> 0"
  have "\<lfloor>a\<rfloor> < 0"
  proof (rule ccontr)
    assume "\<not> \<lfloor>a\<rfloor> < 0"
    then have "0 \<le> \<lfloor>a\<rfloor>" by simp
    then have "(0::real) \<le> of_int \<lfloor>a\<rfloor>" by simp
    with 2(2) a show False by linarith
  qed
  with 2 show ?thesis by simp
qed

lemma powr_powi: "(2::real) powr real_of_int k = 2 powi k"
  by (simp add: powr_real_of_int')

lemma floor_log2:
  assumes "x \<noteq> 0"
  shows "2 powi \<lfloor>log 2 \<bar>x\<bar>\<rfloor> \<le> \<bar>x\<bar>" and "\<bar>x\<bar> < 2 powi (\<lfloor>log 2 \<bar>x\<bar>\<rfloor> + 1)"
proof -
  have "0 < \<bar>x\<bar>" using assms by simp
  then have "2 powr (real_of_int \<lfloor>log 2 \<bar>x\<bar>\<rfloor>) \<le> \<bar>x\<bar> \<and>
             \<bar>x\<bar> < 2 powr (real_of_int (\<lfloor>log 2 \<bar>x\<bar>\<rfloor> + 1))"
    using floor_log_eq_powr_iff [of "\<bar>x\<bar>" 2 "\<lfloor>log 2 \<bar>x\<bar>\<rfloor>"] by simp
  then show "2 powi \<lfloor>log 2 \<bar>x\<bar>\<rfloor> \<le> \<bar>x\<bar>" and "\<bar>x\<bar> < 2 powi (\<lfloor>log 2 \<bar>x\<bar>\<rfloor> + 1)"
    unfolding powr_powi by simp_all
qed

lemma floor_log2_eq:
  assumes "2 powi L \<le> \<bar>x\<bar>" and "\<bar>x\<bar> < 2 powi (L + 1)"
  shows "\<lfloor>log 2 \<bar>x\<bar>\<rfloor> = L"
proof -
  have "0 < (2::real) powi L" by simp
  then have "0 < \<bar>x\<bar>" using assms(1) by linarith
  moreover have "2 powr real_of_int L \<le> \<bar>x\<bar> \<and> \<bar>x\<bar> < 2 powr (real_of_int (L + 1))"
    unfolding powr_powi using assms by simp
  ultimately show ?thesis
    using floor_log_eq_powr_iff [of "\<bar>x\<bar>" 2 L] by simp
qed


lemma rte_half: "\<bar>a\<bar> < 1 / 2 \<Longrightarrow> roundTiesToEven a = 0"
proof -
  assume a: "\<bar>a\<bar> < 1 / 2"
  have "\<bar>of_int (roundTiesToEven a) - a\<bar> \<le> 1 / 2" by (rule rte_err)
  with a have "\<bar>real_of_int (roundTiesToEven a)\<bar> < 1" by linarith
  then show ?thesis by linarith
qed

lemma rte_near: "\<bar>a - of_int n\<bar> < 1 / 2 \<Longrightarrow> roundTiesToEven a = n"
proof -
  assume a: "\<bar>a - of_int n\<bar> < 1 / 2"
  have "\<bar>of_int (roundTiesToEven a) - a\<bar> \<le> 1 / 2" by (rule rte_err)
  with a have "\<bar>real_of_int (roundTiesToEven a) - of_int n\<bar> < 1" by linarith
  then have "\<bar>real_of_int (roundTiesToEven a - n)\<bar> < 1" by simp
  then have "roundTiesToEven a - n = 0" by linarith
  then show ?thesis by simp
qed

lemma rte_ge_one: "1 / 2 < a \<Longrightarrow> 1 \<le> roundTiesToEven a"
proof -
  assume a: "1 / 2 < a"
  have "\<bar>of_int (roundTiesToEven a) - a\<bar> \<le> 1 / 2" by (rule rte_err)
  with a have "0 < real_of_int (roundTiesToEven a)" by linarith
  then show ?thesis by linarith
qed

lemma roundBinary_0 [simp]: "roundBinary p emin 0 = 0"
  by (simp add: roundBinary_def)

lemma powi_split: "(2::real) powi (a + b) = 2 powi a * 2 powi b"
  by (simp add: power_int_add)

lemma roundBinary_key:
  assumes "x \<noteq> 0"
  obtains e where "roundBinary p emin x = of_int (roundTiesToEven (x / 2 powi e)) * 2 powi e"
    and "emin \<le> e"
    and "e = emin \<or> 2 powi e * 2 ^ p \<le> 2 * \<bar>x\<bar>"
    and "\<bar>x\<bar> < 2 powi e * 2 ^ p"
proof -
  define L where "L = \<lfloor>log 2 \<bar>x\<bar>\<rfloor>"
  define e where "e = max emin (L - int p + 1)"
  have lo: "2 powi L \<le> \<bar>x\<bar>" and hi: "\<bar>x\<bar> < 2 powi (L + 1)"
    using floor_log2 [OF assms] by (simp_all add: L_def)
  have r: "roundBinary p emin x = of_int (roundTiesToEven (x / 2 powi e)) * 2 powi e"
    using assms by (simp add: roundBinary_def Let_def e_def L_def)
  have pp: "(2::real) ^ p = 2 powi (int p)" by simp
  have a: "e = emin \<or> 2 powi e * 2 ^ p \<le> 2 * \<bar>x\<bar>"
  proof (cases "e = emin")
    case True
    then show ?thesis by simp
  next
    case False
    then have "e = L - int p + 1" by (simp add: e_def max_def split: if_splits)
    then have "2 powi e * 2 ^ p = (2::real) powi (L - int p + 1) * 2 powi (int p)"
      by simp
    also have "\<dots> = 2 powi ((L - int p + 1) + int p)"
      by (rule power_int_add [symmetric]) simp
    also have "\<dots> = 2 powi (L + 1)" by simp
    also have "\<dots> = 2 * 2 powi L" by (simp add: power_int_add)
    finally show ?thesis using lo by simp
  qed
  have "L + 1 \<le> e + int p" by (simp add: e_def)
  then have "(2::real) powi (L + 1) \<le> 2 powi (e + int p)"
    by (intro power_int_increasing) simp_all
  then have b: "\<bar>x\<bar> < 2 powi e * 2 ^ p"
    using hi unfolding pp by (simp add: power_int_add)
  show ?thesis by (rule that [OF r _ a b]) (simp add: e_def)
qed

lemma roundBinary_error:
  "\<bar>roundBinary p emin x - x\<bar> \<le> \<bar>x\<bar> / 2 ^ p + 2 powi (emin - 1)"
proof (cases "x = 0")
  case True
  then show ?thesis by simp
next
  case False
  then obtain e where r: "roundBinary p emin x = of_int (roundTiesToEven (x / 2 powi e)) * 2 powi e"
    and e: "e = emin \<or> 2 powi e * 2 ^ p \<le> 2 * \<bar>x\<bar>"
    by (rule roundBinary_key)
  have pos: "0 < (2::real) powi e" by simp
  have "roundBinary p emin x - x = (of_int (roundTiesToEven (x / 2 powi e)) - x / 2 powi e) * 2 powi e"
    unfolding r using pos by (simp add: field_simps)
  then have "\<bar>roundBinary p emin x - x\<bar> = \<bar>of_int (roundTiesToEven (x / 2 powi e)) - x / 2 powi e\<bar> * 2 powi e"
    by (simp add: abs_mult)
  also have "\<dots> \<le> 1 / 2 * 2 powi e"
    by (intro mult_right_mono rte_err) simp
  finally have err: "\<bar>roundBinary p emin x - x\<bar> \<le> 2 powi e / 2" by simp
  from e show ?thesis
  proof
    assume "e = emin"
    then have "2 powi e / 2 = (2::real) powi (emin - 1)" by (simp add: power_int_diff)
    moreover have "0 \<le> \<bar>x\<bar> / 2 ^ p" by simp
    ultimately show ?thesis using err by linarith
  next
    assume "2 powi e * 2 ^ p \<le> 2 * \<bar>x\<bar>"
    then have "2 powi e / 2 \<le> \<bar>x\<bar> / 2 ^ p" by (simp add: field_simps)
    moreover have "0 \<le> (2::real) powi (emin - 1)" by simp
    ultimately show ?thesis using err by linarith
  qed
qed

lemma roundBinary_exact:
  assumes m: "\<bar>m\<bar> < 2 ^ p" and k: "emin \<le> k"
  shows "roundBinary p emin (of_int m * 2 powi k) = of_int m * 2 powi k"
proof (cases "m = 0")
  case True
  then show ?thesis by simp
next
  case False
  define x :: real where "x = of_int m * 2 powi k"
  have x0: "x \<noteq> 0" using False by (simp add: x_def)
  then obtain e where r: "roundBinary p emin x = of_int (roundTiesToEven (x / 2 powi e)) * 2 powi e"
    and e: "e = emin \<or> 2 powi e * 2 ^ p \<le> 2 * \<bar>x\<bar>"
    by (rule roundBinary_key)
  have ax: "\<bar>x\<bar> = of_int \<bar>m\<bar> * 2 powi k" by (simp add: x_def abs_mult)
  have "real_of_int \<bar>m\<bar> < 2 ^ p" using m by (metis of_int_less_numeral_power_cancel_iff)
  then have lt: "\<bar>x\<bar> < 2 ^ p * 2 powi k" unfolding ax by (intro mult_strict_right_mono) simp_all
  have ek: "e \<le> k"
  proof (cases "e = emin")
    case True
    then show ?thesis using k by simp
  next
    case False
    with e have "2 powi e * 2 ^ p \<le> 2 * \<bar>x\<bar>" by simp
    with lt have "2 powi e * (2::real) ^ p < 2 * (2 ^ p * 2 powi k)" by linarith
    then have "(2::real) powi e < 2 powi (k + 1)" by (simp add: power_int_add)
    show ?thesis
    proof (rule ccontr)
      assume "\<not> e \<le> k"
      then have "k + 1 \<le> e" by simp
      then have "(2::real) powi (k + 1) \<le> 2 powi e" by (intro power_int_increasing) simp_all
      with \<open>(2::real) powi e < 2 powi (k + 1)\<close> show False by simp
    qed
  qed
  have "x / 2 powi e = of_int m * 2 powi (k - e)"
    by (simp add: x_def power_int_diff)
  also have "(2::real) powi (k - e) = 2 ^ nat (k - e)"
    using ek by (simp add: power_int_def)
  also have "of_int m * (2::real) ^ nat (k - e) = of_int (m * 2 ^ nat (k - e))" by simp
  finally have y: "x / 2 powi e = of_int (m * 2 ^ nat (k - e))" .
  have "roundBinary p emin x = (x / 2 powi e) * 2 powi e"
    unfolding r y rte_int ..
  then show ?thesis by (simp add: x_def)
qed

lemma roundBinary_nonneg: "0 \<le> x \<Longrightarrow> 0 \<le> roundBinary p emin x"
  by (simp add: roundBinary_def Let_def rte_nonneg)

lemma roundBinary_nonpos: "x \<le> 0 \<Longrightarrow> roundBinary p emin x \<le> 0"
proof -
  assume x: "x \<le> 0"
  have "x / 2 powi e \<le> 0" for e :: int using x by (simp add: divide_nonpos_pos)
  then have "roundTiesToEven (x / 2 powi e) \<le> 0" for e :: int by (rule rte_nonpos)
  then have "real_of_int (roundTiesToEven (x / 2 powi e)) * 2 powi e \<le> 0" for e :: int
    by (simp add: mult_le_0_iff)
  then show ?thesis by (simp add: roundBinary_def Let_def)
qed

lemma roundBinary_underflow:
  assumes "\<bar>x\<bar> < 2 powi (emin - 1)" and "0 < p"
  shows "roundBinary p emin x = 0"
proof (cases "x = 0")
  case True
  then show ?thesis by simp
next
  case False
  then obtain e where r: "roundBinary p emin x = of_int (roundTiesToEven (x / 2 powi e)) * 2 powi e"
    and ge: "emin \<le> e"
    by (rule roundBinary_key)
  have "(2::real) powi (emin - 1) \<le> 2 powi (e - 1)"
    using ge by (intro power_int_increasing) simp_all
  with assms(1) have "\<bar>x\<bar> < 2 powi (e - 1)" by linarith
  then have "\<bar>x\<bar> < 2 powi e / 2" by (simp add: power_int_diff)
  then have "\<bar>x / 2 powi e\<bar> < 1 / 2" by (simp add: field_simps abs_divide)
  then show ?thesis unfolding r by (simp add: rte_half)
qed

lemma roundBinary_pos:
  assumes "2 powi (emin - 1) < x" and "0 < p"
  shows "2 powi emin \<le> roundBinary p emin x"
proof -
  have "0 < (2::real) powi (emin - 1)" by simp
  with assms(1) have xp: "0 < x" by linarith
  then obtain e where r: "roundBinary p emin x = of_int (roundTiesToEven (x / 2 powi e)) * 2 powi e"
    and ge: "emin \<le> e"
    and e: "e = emin \<or> 2 powi e * 2 ^ p \<le> 2 * \<bar>x\<bar>"
    using roundBinary_key [of x p emin] by auto
  have "1 / 2 < x / 2 powi e"
  proof (cases "e = emin")
    case True
    have "2 powi e / 2 < x" using assms(1) True by (simp add: power_int_diff)
    then have "1 / 2 * 2 powi e < x" by simp
    then show ?thesis by (simp only: pos_less_divide_eq zero_less_power_int zero_less_numeral)
  next
    case False
    with e have a: "2 powi e * 2 ^ p \<le> 2 * x" using xp by simp
    have "(2::real) ^ 1 \<le> 2 ^ p" using assms(2) by (intro power_increasing) simp_all
    then have "2 powi e * (2::real) \<le> 2 powi e * 2 ^ p" by (intro mult_left_mono) simp_all
    with a have "2 powi e \<le> x" by linarith
    then have "1 \<le> x / 2 powi e" by (simp add: pos_le_divide_eq)
    then show ?thesis by linarith
  qed
  then have "1 \<le> roundTiesToEven (x / 2 powi e)" by (rule rte_ge_one)
  then have "(1::real) \<le> of_int (roundTiesToEven (x / 2 powi e))" by simp
  then have "1 * 2 powi e \<le> real_of_int (roundTiesToEven (x / 2 powi e)) * 2 powi e"
    by (intro mult_right_mono) simp_all
  then have "2 powi e \<le> real_of_int (roundTiesToEven (x / 2 powi e)) * 2 powi e"
    by (simp only: mult_1)
  moreover have "(2::real) powi emin \<le> 2 powi e" using ge by (intro power_int_increasing) simp_all
  ultimately show ?thesis unfolding r by (rule order_trans [rotated])
qed


section \<open>Doubles and 32-bit floats\<close>

lemma overflow_fin: "\<bar>r\<bar> < 2 powi emax \<Longrightarrow> overflow emax r = Fin r"
  by (auto simp: overflow_def)

lemma dbl_error: "\<bar>dbl x - x\<bar> \<le> \<bar>x\<bar> / 2 ^ 53 + 2 powi (- 1075)"
  unfolding dbl_def using roundBinary_error [of 53 "- 1074" x] by simp

lemma flt_error: "\<bar>flt x - x\<bar> \<le> \<bar>x\<bar> / 2 ^ 24 + 2 powi (- 150)"
  unfolding flt_def using roundBinary_error [of 24 "- 149" x] by simp

lemma dbl_nonneg: "0 \<le> x \<Longrightarrow> 0 \<le> dbl x"
  unfolding dbl_def by (rule roundBinary_nonneg)

lemma dbl_nonpos: "x \<le> 0 \<Longrightarrow> dbl x \<le> 0"
  unfolding dbl_def by (rule roundBinary_nonpos)

lemma flt_nonneg: "0 \<le> x \<Longrightarrow> 0 \<le> flt x"
  unfolding flt_def by (rule roundBinary_nonneg)

lemma dbl_upper: "0 \<le> x \<Longrightarrow> dbl x \<le> x * (1 + 1 / 2 ^ 53) + 2 powi (- 1075)"
  using dbl_error [of x] by (simp add: algebra_simps abs_le_iff)

lemma dbl_lower: "0 \<le> x \<Longrightarrow> x * (1 - 1 / 2 ^ 53) - 2 powi (- 1075) \<le> dbl x"
  using dbl_error [of x] by (simp add: algebra_simps abs_le_iff)

lemma flt_upper: "0 \<le> x \<Longrightarrow> flt x \<le> x * (1 + 1 / 2 ^ 24) + 2 powi (- 150)"
  using flt_error [of x] by (simp add: algebra_simps abs_le_iff)

lemma flt_lower: "0 \<le> x \<Longrightarrow> x * (1 - 1 / 2 ^ 24) - 2 powi (- 150) \<le> flt x"
  using flt_error [of x] by (simp add: algebra_simps abs_le_iff)

lemma toDouble_fin:
  assumes "\<bar>x\<bar> \<le> 2 ^ 1023"
  shows "toDouble x = Fin (dbl x)"
proof -
  have "\<bar>dbl x\<bar> \<le> \<bar>x\<bar> + (\<bar>x\<bar> / 2 ^ 53 + 2 powi (- 1075))"
    using dbl_error [of x] by linarith
  also have "\<dots> \<le> 2 ^ 1023 + (2 ^ 1023 / 2 ^ 53 + 2 powi (- 1075))"
    using assms by (intro add_mono divide_right_mono) simp_all
  also have "\<dots> < 2 powi 1024" by (simp add: power_int_minus)
  finally show ?thesis unfolding toDouble_def by (rule overflow_fin)
qed

lemma toFloat32_fin:
  assumes "\<bar>x\<bar> \<le> 2 ^ 127"
  shows "toFloat32 x = Fin (flt x)"
proof -
  have "\<bar>flt x\<bar> \<le> \<bar>x\<bar> + (\<bar>x\<bar> / 2 ^ 24 + 2 powi (- 150))"
    using flt_error [of x] by linarith
  also have "\<dots> \<le> 2 ^ 127 + (2 ^ 127 / 2 ^ 24 + 2 powi (- 150))"
    using assms by (intro add_mono divide_right_mono) simp_all
  also have "\<dots> < 2 powi 128" by (simp add: power_int_minus)
  finally show ?thesis unfolding toFloat32_def by (rule overflow_fin)
qed

lemma dbl_exact: "\<bar>m\<bar> < 2 ^ 53 \<Longrightarrow> - 1074 \<le> k \<Longrightarrow> dbl (of_int m * 2 powi k) = of_int m * 2 powi k"
  unfolding dbl_def by (rule roundBinary_exact)

lemma flt_exact: "\<bar>m\<bar> < 2 ^ 24 \<Longrightarrow> - 149 \<le> k \<Longrightarrow> flt (of_int m * 2 powi k) = of_int m * 2 powi k"
  unfolding flt_def by (rule roundBinary_exact)

lemma dbl_of_int: "\<bar>m\<bar> < 2 ^ 53 \<Longrightarrow> dbl (of_int m) = of_int m"
  using dbl_exact [of m 0] by simp

lemma flt_of_int: "\<bar>m\<bar> < 2 ^ 24 \<Longrightarrow> flt (of_int m) = of_int m"
  using flt_exact [of m 0] by simp

lemma toDouble_of_int:
  assumes "\<bar>m\<bar> < 2 ^ 53"
  shows "toDouble (of_int m) = Fin (of_int m)"
proof -
  have "real_of_int \<bar>m\<bar> < 2 ^ 53" using assms by (metis of_int_less_numeral_power_cancel_iff)
  then have "\<bar>real_of_int m\<bar> \<le> 2 ^ 53" by simp
  also have "\<dots> \<le> (2::real) ^ 1023" by (intro power_increasing) simp_all
  finally show ?thesis using assms by (simp add: toDouble_fin dbl_of_int)
qed

lemma toFloat32_of_int:
  assumes "\<bar>m\<bar> < 2 ^ 24"
  shows "toFloat32 (of_int m) = Fin (of_int m)"
proof -
  have "real_of_int \<bar>m\<bar> < 2 ^ 24" using assms by (metis of_int_less_numeral_power_cancel_iff)
  then have "\<bar>real_of_int m\<bar> \<le> 2 ^ 24" by simp
  also have "\<dots> \<le> (2::real) ^ 127" by (intro power_increasing) simp_all
  finally show ?thesis using assms by (simp add: toFloat32_fin flt_of_int)
qed

lemma toDouble_0 [simp]: "toDouble 0 = Fin 0"
  using toDouble_of_int [of 0] by simp

lemma toDouble_1 [simp]: "toDouble 1 = Fin 1"
  using toDouble_of_int [of 1] by simp

lemma toFloat32_0 [simp]: "toFloat32 0 = Fin 0"
  using toFloat32_of_int [of 0] by simp

lemma toFloat32_1 [simp]: "toFloat32 1 = Fin 1"
  using toFloat32_of_int [of 1] by simp

lemma toDouble_of_nat: "n < 2 ^ 53 \<Longrightarrow> toDouble (real n) = Fin (real n)"
  using toDouble_of_int [of "int n"] by simp

lemma toFloat32_of_nat: "n < 2 ^ 24 \<Longrightarrow> toFloat32 (real n) = Fin (real n)"
  using toFloat32_of_int [of "int n"] by simp

lemma unat_byte: "unat (b :: 8 word) < 256"
  using unsigned_less [of b, where ?'a = nat] by simp

lemma toDouble_byte: "toDouble (real (unat (b :: 8 word))) = Fin (real (unat b))"
  by (rule toDouble_of_nat) (use unat_byte [of b] in simp)

lemma toFloat32_byte: "toFloat32 (real (unat (b :: 8 word))) = Fin (real (unat b))"
  by (rule toFloat32_of_nat) (use unat_byte [of b] in simp)

lemma toDouble_cases:
  obtains "toDouble x = Fin (dbl x)" | "toDouble x = PInf" and "0 < x" | "toDouble x = NInf" and "x < 0"
proof -
  have p: "0 < (2::real) powi 1024" by simp
  consider "2 powi 1024 \<le> dbl x" | "dbl x \<le> - (2 powi 1024)"
    | "\<not> 2 powi 1024 \<le> dbl x" "\<not> dbl x \<le> - (2 powi 1024)" by blast
  then show ?thesis
  proof cases
    case 1
    have "0 < x"
    proof (rule ccontr)
      assume "\<not> 0 < x"
      then have "dbl x \<le> 0" by (intro dbl_nonpos) simp
      with 1 p show False by linarith
    qed
    with 1 that(2) show ?thesis by (simp add: toDouble_def overflow_def)
  next
    case 2
    have "x < 0"
    proof (rule ccontr)
      assume "\<not> x < 0"
      then have "0 \<le> dbl x" by (intro dbl_nonneg) simp
      with 2 p show False by linarith
    qed
    moreover have "\<not> 2 powi 1024 \<le> dbl x" using 2 p by linarith
    ultimately show ?thesis using 2 that(3) by (simp add: toDouble_def overflow_def)
  next
    case 3
    then show ?thesis using that(1) by (simp add: toDouble_def overflow_def)
  qed
qed

lemma dbl_underflow: "\<bar>x\<bar> < 2 powi (- 1075) \<Longrightarrow> dbl x = 0"
  unfolding dbl_def using roundBinary_underflow [of x "- 1074" 53] by simp

lemma dbl_pos: "2 powi (- 1075) < x \<Longrightarrow> 2 powi (- 1074) \<le> dbl x"
  unfolding dbl_def using roundBinary_pos [of "- 1074" x 53] by simp


section \<open>Typed arrays and loops\<close>

lemma ta_set_length [simp]: "length (ta_set a i v) = length a"
  by (simp add: ta_set_def)

lemma ta_get_set:
  "ta_get (ta_set a i v) j = (if j = i \<and> 0 \<le> i \<and> i < int (length a) then Some v else ta_get a j)"
  by (auto simp: ta_get_def ta_set_def nth_list_update)

lemma ta_ext:
  assumes "\<And>j. ta_get a j = ta_get b j"
  shows "a = b"
proof -
  have len: "length a = length b"
  proof (rule ccontr)
    assume ne: "length a \<noteq> length b"
    show False
    proof (cases "length a < length b")
      case True
      have "ta_get a (int (length a)) = None" by (simp add: ta_get_def)
      moreover have "ta_get b (int (length a)) \<noteq> None" using True by (simp add: ta_get_def)
      ultimately show False using assms by simp
    next
      case False
      then have lt: "length b < length a" using ne by simp
      have "ta_get b (int (length b)) = None" by (simp add: ta_get_def)
      moreover have "ta_get a (int (length b)) \<noteq> None" using lt by (simp add: ta_get_def)
      ultimately show False using assms by simp
    qed
  qed
  show ?thesis
  proof (rule nth_equalityI [OF len])
    fix i assume "i < length a"
    then show "a ! i = b ! i"
      using assms [of "int i"] len by (simp add: ta_get_def)
  qed
qed

lemma ta_get_map_upto:
  "ta_get (map f [0..n - 1]) j = (if 0 \<le> j \<and> j < n then Some (f j) else None)"
  by (auto simp: ta_get_def nth_upto)

lemma fold_pair_split:
  "fold (\<lambda>i (k, s). (F i k, G i s)) xs (k0, s0) = (fold F xs k0, fold G xs s0)"
  by (induction xs arbitrary: k0 s0) auto

lemma fold_set_length [simp]:
  "length (fold (\<lambda>i k. ta_set k (p i) (v i k)) xs k0) = length k0"
  by (induction xs arbitrary: k0) auto

lemma fold_set_get:
  "ta_get (fold (\<lambda>i k. ta_set k (i + r) (v i)) xs k0) j =
     (if j - r \<in> set xs \<and> 0 \<le> j \<and> j < int (length k0) then Some (v (j - r)) else ta_get k0 j)"
  by (induction xs arbitrary: k0) (auto simp: ta_get_set)

lemma fold_div_get:
  "distinct xs \<Longrightarrow>
   ta_get (fold (\<lambda>i k. ta_set k i (fround (jsdiv (f32_get k i) s))) xs k1) j =
     (if j \<in> set xs then map_option (\<lambda>v. fround (jsdiv v s)) (ta_get k1 j) else ta_get k1 j)"
proof (induction xs arbitrary: k1)
  case Nil
  then show ?case by simp
next
  case (Cons i xs)
  have inr: "ta_get k1 i = (if 0 \<le> i \<and> i < int (length k1) then Some (k1 ! nat i) else None)"
    by (simp add: ta_get_def)
  from Cons show ?case
    by (auto simp: ta_get_set f32_get_def inr)
qed

lemma map_upto_shift: "map (\<lambda>j. f (j - r)) [0..n] = map f [- r..n - r]"
  by (rule nth_equalityI) (simp_all add: nth_upto)

section \<open>The pixel loops\<close>

lemma fold_quad_split:
  "fold (\<lambda>k (r, g, b, a). (jsadd r (F0 k), jsadd g (F1 k), jsadd b (F2 k), jsadd a (F3 k)))
        ks (r0, g0, b0, a0)
   = (fold (\<lambda>k r. jsadd r (F0 k)) ks r0, fold (\<lambda>k r. jsadd r (F1 k)) ks g0,
      fold (\<lambda>k r. jsadd r (F2 k)) ks b0, fold (\<lambda>k r. jsadd r (F3 k)) ks a0)"
  by (induction ks arbitrary: r0 g0 b0 a0) auto

lemma blurWindowX_conv:
  "blurWindowX st d w ws radius y x =
     (windowSum ws radius (\<lambda>k. st_get st d ((y * w + clamp (x + k) 0 (w - 1)) * 4 + 0)),
      windowSum ws radius (\<lambda>k. st_get st d ((y * w + clamp (x + k) 0 (w - 1)) * 4 + 1)),
      windowSum ws radius (\<lambda>k. st_get st d ((y * w + clamp (x + k) 0 (w - 1)) * 4 + 2)),
      windowSum ws radius (\<lambda>k. st_get st d ((y * w + clamp (x + k) 0 (w - 1)) * 4 + 3)))"
  unfolding blurWindowX_def windowSum_def Let_def
  using fold_quad_split [of
      "\<lambda>k. jsmul (st_get st d ((y * w + clamp (x + k) 0 (w - 1)) * 4)) (f32_get ws (k + radius))"
      "\<lambda>k. jsmul (st_get st d ((y * w + clamp (x + k) 0 (w - 1)) * 4 + 1)) (f32_get ws (k + radius))"
      "\<lambda>k. jsmul (st_get st d ((y * w + clamp (x + k) 0 (w - 1)) * 4 + 2)) (f32_get ws (k + radius))"
      "\<lambda>k. jsmul (st_get st d ((y * w + clamp (x + k) 0 (w - 1)) * 4 + 3)) (f32_get ws (k + radius))"
      "[- radius..radius]" "Fin 0" "Fin 0" "Fin 0" "Fin 0"]
  by simp

lemma blurWindowY_conv:
  "blurWindowY temp w h ws radius y x =
     (windowSum ws radius (\<lambda>k. f32_get temp ((clamp (y + k) 0 (h - 1) * w + x) * 4 + 0)),
      windowSum ws radius (\<lambda>k. f32_get temp ((clamp (y + k) 0 (h - 1) * w + x) * 4 + 1)),
      windowSum ws radius (\<lambda>k. f32_get temp ((clamp (y + k) 0 (h - 1) * w + x) * 4 + 2)),
      windowSum ws radius (\<lambda>k. f32_get temp ((clamp (y + k) 0 (h - 1) * w + x) * 4 + 3)))"
  unfolding blurWindowY_def windowSum_def Let_def
  using fold_quad_split [of
      "\<lambda>k. jsmul (f32_get temp ((clamp (y + k) 0 (h - 1) * w + x) * 4)) (f32_get ws (k + radius))"
      "\<lambda>k. jsmul (f32_get temp ((clamp (y + k) 0 (h - 1) * w + x) * 4 + 1)) (f32_get ws (k + radius))"
      "\<lambda>k. jsmul (f32_get temp ((clamp (y + k) 0 (h - 1) * w + x) * 4 + 2)) (f32_get ws (k + radius))"
      "\<lambda>k. jsmul (f32_get temp ((clamp (y + k) 0 (h - 1) * w + x) * 4 + 3)) (f32_get ws (k + radius))"
      "[- radius..radius]" "Fin 0" "Fin 0" "Fin 0" "Fin 0"]
  by simp

text \<open>The four writes at the samples of the pixel \<open>p\<close>, then a row and the whole image.\<close>

lemma write4_get:
  assumes "int (length a) = 4 * n"
  shows "ta_get (ta_set (ta_set (ta_set (ta_set a (p * 4) (q 0)) (p * 4 + 1) (q 1))
                   (p * 4 + 2) (q 2)) (p * 4 + 3) (q 3)) j
         = (if 0 \<le> j \<and> j < 4 * n \<and> j div 4 = p then Some (q (j mod 4)) else ta_get a j)"
proof (cases "0 \<le> j \<and> j < 4 * n \<and> j div 4 = p")
  case True
  then have r: "0 \<le> p * 4" "p * 4 + 3 < int (length a)"
    using assms by presburger+
  from True have "j = p * 4 \<or> j = p * 4 + 1 \<or> j = p * 4 + 2 \<or> j = p * 4 + 3"
    by presburger
  then show ?thesis
  proof (elim disjE)
    assume "j = p * 4" then show ?thesis using True r by (simp add: ta_get_set)
  next
    assume "j = p * 4 + 1" then show ?thesis using True r by (simp add: ta_get_set)
  next
    assume "j = p * 4 + 2" then show ?thesis using True r by (simp add: ta_get_set)
  next
    assume "j = p * 4 + 3" then show ?thesis using True r by (simp add: ta_get_set)
  qed
next
  case nc: False
  show ?thesis
  proof (cases "0 \<le> j \<and> j < 4 * n")
    case True
    with nc have ne: "j div 4 \<noteq> p" by simp
    then have "j \<noteq> p * 4" "j \<noteq> p * 4 + 1" "j \<noteq> p * 4 + 2" "j \<noteq> p * 4 + 3"
      by presburger+
    then show ?thesis using ne by (simp add: ta_get_set)
  next
    case False
    then have "ta_get a j = None" using assms by (simp add: ta_get_def)
    moreover have "ta_get (ta_set (ta_set (ta_set (ta_set a (p * 4) (q 0)) (p * 4 + 1) (q 1))
                   (p * 4 + 2) (q 2)) (p * 4 + 3) (q 3)) j = None"
      using False assms by (simp add: ta_get_def)
    ultimately show ?thesis by (simp only: nc if_False)
  qed
qed

lemma row_get:
  assumes "int (length a0) = 4 * n"
  shows "ta_get (fold (\<lambda>x a. ta_set (ta_set (ta_set (ta_set a ((b + x) * 4) (q x 0))
                     ((b + x) * 4 + 1) (q x 1)) ((b + x) * 4 + 2) (q x 2)) ((b + x) * 4 + 3) (q x 3))
                   xs a0) j
         = (if 0 \<le> j \<and> j < 4 * n \<and> j div 4 - b \<in> set xs
            then Some (q (j div 4 - b) (j mod 4)) else ta_get a0 j)"
  using assms
proof (induction xs arbitrary: a0)
  case Nil
  then show ?case by simp
next
  case (Cons x xs)
  let ?a1 = "ta_set (ta_set (ta_set (ta_set a0 ((b + x) * 4) (q x 0))
                     ((b + x) * 4 + 1) (q x 1)) ((b + x) * 4 + 2) (q x 2)) ((b + x) * 4 + 3) (q x 3)"
  have len: "int (length ?a1) = 4 * n" using Cons.prems by simp
  have eq: "j div 4 - b = x \<longleftrightarrow> j div 4 = b + x" by auto
  have step: "fold (\<lambda>x a. ta_set (ta_set (ta_set (ta_set a ((b + x) * 4) (q x 0))
                     ((b + x) * 4 + 1) (q x 1)) ((b + x) * 4 + 2) (q x 2)) ((b + x) * 4 + 3) (q x 3))
                   (x # xs) a0 = fold (\<lambda>x a. ta_set (ta_set (ta_set (ta_set a ((b + x) * 4) (q x 0))
                     ((b + x) * 4 + 1) (q x 1)) ((b + x) * 4 + 2) (q x 2)) ((b + x) * 4 + 3) (q x 3))
                   xs ?a1" by simp
  show ?case
    unfolding step Cons.IH [OF len] write4_get [OF Cons.prems, of "b + x" "q x" j]
    by (cases "j div 4 - b = x") (simp_all add: eq)
qed

lemma row_length:
  "length (fold (\<lambda>x a. ta_set (ta_set (ta_set (ta_set a (i0 x) (v0 x a))
                     (i1 x) (v1 x a)) (i2 x) (v2 x a)) (i3 x) (v3 x a)) xs a0) = length a0"
  by (induction xs arbitrary: a0) auto

lemma image_get:
  assumes "int (length a0) = 4 * n" and "0 < w"
  shows "ta_get (fold (\<lambda>y. fold (\<lambda>x a. ta_set (ta_set (ta_set (ta_set a ((y * w + x) * 4) (q y x 0))
                     ((y * w + x) * 4 + 1) (q y x 1)) ((y * w + x) * 4 + 2) (q y x 2))
                     ((y * w + x) * 4 + 3) (q y x 3)) [0..w - 1]) ys a0) j
         = (if 0 \<le> j \<and> j < 4 * n \<and> j div 4 div w \<in> set ys
            then Some (q (j div 4 div w) (j div 4 mod w) (j mod 4)) else ta_get a0 j)"
  using assms(1)
proof (induction ys arbitrary: a0)
  case Nil
  then show ?case by simp
next
  case (Cons y ys)
  let ?row = "fold (\<lambda>x a. ta_set (ta_set (ta_set (ta_set a ((y * w + x) * 4) (q y x 0))
                     ((y * w + x) * 4 + 1) (q y x 1)) ((y * w + x) * 4 + 2) (q y x 2))
                     ((y * w + x) * 4 + 3) (q y x 3)) [0..w - 1] a0"
  have len: "int (length ?row) = 4 * n" using Cons.prems by (simp add: row_length)
  have inrow: "(0 \<le> j div 4 - y * w \<and> j div 4 - y * w \<le> w - 1) \<longleftrightarrow> j div 4 div w = y"
  proof
    assume "0 \<le> j div 4 - y * w \<and> j div 4 - y * w \<le> w - 1"
    then have r: "0 \<le> j div 4 - y * w" "j div 4 - y * w < w"
      by auto
    have "j div 4 div w = (y * w + (j div 4 - y * w)) div w" by simp
    also have "\<dots> = y" using r assms(2) by (simp only: div_mult_self3 div_pos_pos_trivial)
    finally show "j div 4 div w = y" .
  next
    assume e: "j div 4 div w = y"
    have "j div 4 - y * w = j div 4 mod w"
      unfolding e [symmetric] by (rule minus_div_mult_eq_mod)
    then show "0 \<le> j div 4 - y * w \<and> j div 4 - y * w \<le> w - 1"
      using assms(2) pos_mod_bound [of w "j div 4"] pos_mod_sign [of w "j div 4"] by simp
  qed
  have modeq: "j div 4 - y * w = j div 4 mod w" if e: "j div 4 div w = y"
    unfolding e [symmetric] by (rule minus_div_mult_eq_mod)
  have step: "fold (\<lambda>y. fold (\<lambda>x a. ta_set (ta_set (ta_set (ta_set a ((y * w + x) * 4) (q y x 0))
                     ((y * w + x) * 4 + 1) (q y x 1)) ((y * w + x) * 4 + 2) (q y x 2))
                     ((y * w + x) * 4 + 3) (q y x 3)) [0..w - 1]) (y # ys) a0
             = fold (\<lambda>y. fold (\<lambda>x a. ta_set (ta_set (ta_set (ta_set a ((y * w + x) * 4) (q y x 0))
                     ((y * w + x) * 4 + 1) (q y x 1)) ((y * w + x) * 4 + 2) (q y x 2))
                     ((y * w + x) * 4 + 3) (q y x 3)) [0..w - 1]) ys ?row" by simp
  show ?case
    unfolding step Cons.IH [OF len] row_get [OF Cons.prems, of "y * w" "q y" "[0..w - 1]" j]
    using inrow modeq by auto
qed

lemma div_bound:
  fixes a w h :: int
  assumes "0 \<le> a" and "a < w * h" and "0 < w"
  shows "0 \<le> a div w \<and> a div w \<le> h - 1"
proof -
  have "w * (a div w) + a mod w = a" by (rule mult_div_mod_eq)
  moreover have "0 \<le> a mod w" using assms(3) by simp
  ultimately have "w * (a div w) < w * h" using assms(2) by linarith
  then have "a div w < h" using assms(3) by (simp add: mult_less_cancel_left_pos)
  moreover have "0 \<le> a div w" using assms(1,3) by (simp add: pos_imp_zdiv_nonneg_iff)
  ultimately show ?thesis by simp
qed

lemma image_fill:
  assumes len: "int (length a0) = 4 * w * h" and w: "0 < w"
  shows "fold (\<lambda>y. fold (\<lambda>x a. ta_set (ta_set (ta_set (ta_set a ((y * w + x) * 4) (q y x 0))
                     ((y * w + x) * 4 + 1) (q y x 1)) ((y * w + x) * 4 + 2) (q y x 2))
                     ((y * w + x) * 4 + 3) (q y x 3)) [0..w - 1]) [0..h - 1] a0
         = map (\<lambda>j. q (j div 4 div w) (j div 4 mod w) (j mod 4)) [0..4 * w * h - 1]"
proof (rule ta_ext)
  fix j
  have len': "int (length a0) = 4 * (w * h)" using len by simp
  have inr: "0 \<le> j div 4 div w \<and> j div 4 div w \<le> h - 1" if "0 \<le> j" "j < 4 * (w * h)"
  proof -
    have "0 \<le> j div 4" "j div 4 < w * h" using that by presburger+
    then show ?thesis using w by (rule div_bound)
  qed
  have out: "ta_get a0 j = None" if "\<not> (0 \<le> j \<and> j < 4 * (w * h))"
    using that len' by (simp add: ta_get_def)
  show "ta_get (fold (\<lambda>y. fold (\<lambda>x a. ta_set (ta_set (ta_set (ta_set a ((y * w + x) * 4) (q y x 0))
                     ((y * w + x) * 4 + 1) (q y x 1)) ((y * w + x) * 4 + 2) (q y x 2))
                     ((y * w + x) * 4 + 3) (q y x 3)) [0..w - 1]) [0..h - 1] a0) j
        = ta_get (map (\<lambda>j. q (j div 4 div w) (j div 4 mod w) (j mod 4)) [0..4 * w * h - 1]) j"
    unfolding image_get [OF len' w] ta_get_map_upto mult.assoc
  proof (cases "0 \<le> j \<and> j < 4 * (w * h)")
    case True
    then show "(if 0 \<le> j \<and> j < 4 * (w * h) \<and> j div 4 div w \<in> set [0..h - 1]
                then Some (q (j div 4 div w) (j div 4 mod w) (j mod 4)) else ta_get a0 j)
               = (if 0 \<le> j \<and> j < 4 * (w * h)
                  then Some (q (j div 4 div w) (j div 4 mod w) (j mod 4)) else None)"
      using inr [of] by simp
  next
    case False
    then have c1: "(0 \<le> j \<and> j < 4 * (w * h) \<and> j div 4 div w \<in> set [0..h - 1]) = False"
      and c2: "(0 \<le> j \<and> j < 4 * (w * h)) = False" by auto
    show "(if 0 \<le> j \<and> j < 4 * (w * h) \<and> j div 4 div w \<in> set [0..h - 1]
                then Some (q (j div 4 div w) (j div 4 mod w) (j mod 4)) else ta_get a0 j)
               = (if 0 \<le> j \<and> j < 4 * (w * h)
                  then Some (q (j div 4 div w) (j div 4 mod w) (j mod 4)) else None)"
      unfolding c1 c2 using out [OF False] by simp
  qed
qed

text \<open>Writes of a loop to one array of the store.\<close>

lemma st_set4:
  assumes "output < length st"
  shows "st_set (st_set (st_set (st_set st output i0 v0) output i1 v1) output i2 v2) output i3 v3
         = st[output := ta_set (ta_set (ta_set (ta_set (st ! output) i0 (toUint8Clamp v0))
                          i1 (toUint8Clamp v1)) i2 (toUint8Clamp v2)) i3 (toUint8Clamp v3)]"
  using assms by (simp add: st_set_def u8_set_def)

lemma fold_store_lift:
  assumes "output < length st0"
    and "\<And>x st. length st = length st0 \<Longrightarrow> B x st = st[output := F x (st ! output)]"
  shows "fold B xs st0 = st0[output := fold F xs (st0 ! output)]"
  using assms
proof (induction xs arbitrary: st0)
  case Nil
  then show ?case by simp
next
  case (Cons x xs)
  let ?st1 = "st0[output := F x (st0 ! output)]"
  have b: "B x st0 = ?st1" by (rule Cons.prems(2)) simp
  have "fold B xs ?st1 = ?st1[output := fold F xs (?st1 ! output)]"
    by (rule Cons.IH) (simp_all add: Cons.prems)
  then show ?case using Cons.prems(1) by (simp add: b)
qed

lemma blurPassX_convolveX:
  assumes "int (length temp0) = 4 * w * h" and "0 < w"
  shows "blurPassX st d w h ws radius temp0 = convolveX (windowSum ws radius) (deref st d) w h"
  unfolding blurPassX_def blurWindowX_conv convolveX_def f32_set_def Let_def prod.case st_get_def
  using image_fill [OF assms, of
      "\<lambda>y x c. fround (windowSum ws radius
                  (\<lambda>k. u8_get (deref st d) ((y * w + clamp (x + k) 0 (w - 1)) * 4 + c)))"]
  by simp

lemma blurPassY_convolveY:
  assumes "output < length st0" and "int (length (st0 ! output)) = 4 * w * h" and "0 < w"
  shows "blurPassY temp w h ws radius output st0
         = st0[output := map toUint8Clamp (convolveY (windowSum ws radius) temp w h)]"
proof -
  let ?q = "\<lambda>y x c. toUint8Clamp
              (windowSum ws radius (\<lambda>k. f32_get temp ((clamp (y + k) 0 (h - 1) * w + x) * 4 + c)))"
  let ?W = "\<lambda>y x a. ta_set (ta_set (ta_set (ta_set a ((y * w + x) * 4) (?q y x 0))
                     ((y * w + x) * 4 + 1) (?q y x 1)) ((y * w + x) * 4 + 2) (?q y x 2))
                     ((y * w + x) * 4 + 3) (?q y x 3)"
  have pix: "(case blurWindowY temp w h ws radius y x of (r, g, b, a) \<Rightarrow>
                let outIdx = (y * w + x) * 4
                in st_set (st_set (st_set (st_set st output outIdx r) output (outIdx + 1) g)
                             output (outIdx + 2) b) output (outIdx + 3) a)
             = st[output := ?W y x (st ! output)]" if "output < length st" for y x st
    unfolding blurWindowY_conv prod.case Let_def st_set4 [OF that] by simp
  have row: "fold (\<lambda>x st. case blurWindowY temp w h ws radius y x of (r, g, b, a) \<Rightarrow>
                let outIdx = (y * w + x) * 4
                in st_set (st_set (st_set (st_set st output outIdx r) output (outIdx + 1) g)
                             output (outIdx + 2) b) output (outIdx + 3) a) [0..w - 1] st
             = st[output := fold (?W y) [0..w - 1] (st ! output)]" if "output < length st" for y st
    by (rule fold_store_lift [OF that]) (rule pix, simp add: that)
  have img: "fold (\<lambda>y. fold (\<lambda>x st. case blurWindowY temp w h ws radius y x of (r, g, b, a) \<Rightarrow>
                let outIdx = (y * w + x) * 4
                in st_set (st_set (st_set (st_set st output outIdx r) output (outIdx + 1) g)
                             output (outIdx + 2) b) output (outIdx + 3) a) [0..w - 1]) [0..h - 1] st0
             = st0[output := fold (\<lambda>y. fold (?W y) [0..w - 1]) [0..h - 1] (st0 ! output)]"
    by (rule fold_store_lift [OF assms(1)]) (rule row, simp add: assms(1))
  have fill: "fold (\<lambda>y. fold (?W y) [0..w - 1]) [0..h - 1] (st0 ! output)
                = map toUint8Clamp (convolveY (windowSum ws radius) temp w h)"
    unfolding image_fill [OF assms(2,3), of ?q] convolveY_def Let_def by (simp add: comp_def)
  show ?thesis
    unfolding blurPassY_def by (simp only: img fill)
qed

lemma buildKernel_total: "0 \<le> sz \<Longrightarrow> \<exists>ws. buildKernel mexp sz sigma = Inr (ws, sz div 2)"
  by (simp add: buildKernel_def newFloat32Array_def Let_def split: prod.splits)

lemma convolveX_length: "length (convolveX cv src w h) = nat (4 * w * h)"
  by (simp add: convolveX_def)

lemma convolveY_length: "length (convolveY cv src w h) = nat (4 * w * h)"
  by (simp add: convolveY_def)

lemma gaussianBlur_run:
  assumes v: "validImage st img" and k: "buildKernel mexp sz sigma = Inr (ws, radius)"
  shows "gaussianBlur mexp st img sz sigma =
           Inr (\<lparr>width = width img, height = height img, data = length st\<rparr>,
                st @ [map toUint8Clamp
                        (convolveY (windowSum ws radius)
                           (convolveX (windowSum ws radius) (st ! data img) (width img) (height img))
                           (width img) (height img))])"
proof -
  define w h d where "w = width img" and "h = height img" and "d = data img"
  define st0 where "st0 = st @ [replicate (length (st ! d)) (0 :: 8 word)]"
  have d: "d < length st" and w: "0 < w" and h: "0 < h"
    and len: "int (length (st ! d)) = 4 * w * h"
    using v by (simp_all add: validImage_def w_def h_def d_def)
  have deref: "deref st d = st ! d" "deref st0 d = st ! d"
    using d by (simp_all add: deref_def st0_def nth_append)
  have passX: "blurPassX st0 d w h ws radius (replicate (length (st ! d)) (Fin 0))
                 = convolveX (windowSum ws radius) (st ! d) w h"
    using blurPassX_convolveX [of "replicate (length (st ! d)) (Fin 0)" w h st0 d ws radius] len w
    by (simp add: deref)
  have passY: "blurPassY temp w h ws radius (length st) st0
                 = st @ [map toUint8Clamp (convolveY (windowSum ws radius) temp w h)]" for temp
    using blurPassY_convolveY [of "length st" st0 w h temp ws radius] len w
    by (simp add: st0_def)
  have whpos: "0 < w * h" using w h by simp
  have img: "newImageData (st @ [map toUint8Clamp (convolveY cv temp w h)]) (length st) w h
               = Inr \<lparr>width = w, height = h, data = length st\<rparr>" for temp cv
    using w h whpos by (simp add: newImageData_def deref_def convolveY_length mult.assoc)
  show ?thesis
    unfolding gaussianBlur_def
    by (simp add: k Let_def newUint8ClampedArray_def w_def [symmetric] h_def [symmetric]
        d_def [symmetric] deref st0_def [symmetric] passX passY img)
qed

lemma clamp_cases: "0 < w \<Longrightarrow> clamp v 0 (w - 1) = (if v < 0 then 0 else if w - 1 < v then w - 1 else v)"
  by (simp add: clamp_def)

lemma clamp_range: "0 < w \<Longrightarrow> 0 \<le> clamp v 0 (w - 1) \<and> clamp v 0 (w - 1) \<le> w - 1"
  by (simp add: clamp_def)

lemma fold_cong_set:
  "(\<And>x acc. x \<in> set xs \<Longrightarrow> f x acc = g x acc) \<Longrightarrow> fold f xs a = fold g xs a"
  by (induction xs arbitrary: a) simp_all

text \<open>
  For a kernel that holds a weight for each of the offsets from \<open>- radius\<close> to \<open>radius\<close>,
  the sum of a window is the one-dimensional convolution with that kernel.
\<close>

lemma windowSum_conv1d:
  assumes "int (length ws) = 2 * radius + 1"
  shows "windowSum ws radius = conv1d ws radius"
proof
  fix sample
  have u: "[- radius..radius] = map (\<lambda>j. j - radius) [0..2 * radius]"
    using map_upto_shift [of "\<lambda>k. k" radius "2 * radius"] by simp
  have "windowSum ws radius sample =
          fold (\<lambda>j acc. jsadd acc (jsmul (sample (j - radius)) (f32_get ws (j - radius + radius))))
               [0..2 * radius] (Fin 0)"
    unfolding windowSum_def u by (simp add: fold_map comp_def)
  also have "\<dots> = fold (\<lambda>j acc. jsadd acc (jsmul (sample (j - radius)) (ws ! nat j)))
                     [0..2 * radius] (Fin 0)"
    by (rule fold_cong_set) (use assms in \<open>simp add: f32_get_def ta_get_def\<close>)
  finally show "windowSum ws radius sample = conv1d ws radius sample"
    using assms by (simp add: conv1d_def)
qed

lemma buildKernel_length:
  assumes "buildKernel mexp sz sigma = Inr (ws, r)"
  shows "length ws = nat sz \<and> r = sz div 2"
proof -
  let ?V = "\<lambda>i. jsexp mexp (jsdiv (jsneg (jsmul (Fin (of_int i)) (Fin (of_int i))))
                               (jsmul (Fin 2) (jsmul sigma sigma)))"
  have sz: "0 \<le> sz" using assms by (auto simp: buildKernel_def newFloat32Array_def split: if_splits)
  have "buildKernel mexp sz sigma =
          Inr (fold (\<lambda>i k. ta_set k i (fround (jsdiv (f32_get k i)
                      (fold (\<lambda>i s. jsadd s (?V i)) [- (sz div 2)..sz div 2] (Fin 0)))))
                 [0..sz - 1]
                 (fold (\<lambda>i k. ta_set k (i + sz div 2) (fround (?V i))) [- (sz div 2)..sz div 2]
                    (replicate (nat sz) (Fin 0))),
               sz div 2)"
    using sz by (simp add: buildKernel_def newFloat32Array_def Let_def f32_set_def fold_pair_split)
  with assms show ?thesis by auto
qed

section \<open>Bytes and sample indices\<close>

lemma roundTiesToEven_of_nat: "roundTiesToEven (real n) = int n"
  by (simp add: roundTiesToEven_def)

lemma toUint8Clamp_of_nat:
  assumes "n < 256"
  shows "toUint8Clamp (Fin (real n)) = word_of_nat n"
proof (cases "n = 0")
  case True
  then show ?thesis by simp
next
  case nz: False
  show ?thesis
  proof (cases "n = 255")
    case True
    then show ?thesis by simp
  next
    case False
    then have "\<not> 255 \<le> real n" using assms by linarith
    moreover have "\<not> real n \<le> 0" using nz by simp
    ultimately show ?thesis by (simp add: roundTiesToEven_of_nat)
  qed
qed

lemma toUint8Clamp_unat: "toUint8Clamp (Fin (real (unat b))) = b"
proof -
  have "unat b < 256" using unsigned_less [of b, where ?'a = nat] by simp
  then have "toUint8Clamp (Fin (real (unat b))) = word_of_nat (unat b)"
    by (rule toUint8Clamp_of_nat)
  then show ?thesis by simp
qed

lemma sample_index_range:
  fixes x y c w h :: int
  assumes "0 \<le> y" "y \<le> h - 1" "0 \<le> x" "x \<le> w - 1" "0 \<le> c" "c \<le> 3"
  shows "0 \<le> (y * w + x) * 4 + c \<and> (y * w + x) * 4 + c < 4 * w * h"
proof -
  have w: "0 < w" using assms(3,4) by simp
  have "y * w \<le> (h - 1) * w" using assms(2) w by (simp add: mult_right_mono)
  then have "y * w + x \<le> h * w - 1" using assms(4) by (simp add: algebra_simps)
  moreover have "0 \<le> y * w" using assms(1) w by simp
  ultimately show ?thesis using assms(3,5,6) by (simp add: algebra_simps)
qed

lemma pixel_coords:
  fixes j w h :: int
  assumes "0 \<le> j" "j < 4 * w * h" "0 < w"
  shows "0 \<le> j div 4 div w \<and> j div 4 div w \<le> h - 1 \<and> 0 \<le> j div 4 mod w \<and> j div 4 mod w \<le> w - 1
         \<and> 0 \<le> j mod 4 \<and> j mod 4 \<le> 3 \<and> (j div 4 div w * w + j div 4 mod w) * 4 + j mod 4 = j"
proof -
  have "j < 4 * n \<Longrightarrow> j div 4 < n" for n by presburger
  then have "j div 4 < w * h" using assms(2) by (simp add: mult.assoc)
  moreover have "0 \<le> j div 4" using assms(1) by presburger
  ultimately have "0 \<le> j div 4" "j div 4 < w * h" by simp_all
  then have "0 \<le> j div 4 div w \<and> j div 4 div w \<le> h - 1" using assms(3) by (rule div_bound)
  moreover have "0 \<le> j div 4 mod w \<and> j div 4 mod w \<le> w - 1"
    using assms(3) pos_mod_bound [of w "j div 4"] by simp
  moreover have "0 \<le> j mod 4 \<and> j mod 4 \<le> 3" by presburger
  moreover have "j div 4 div w * w + j div 4 mod w = j div 4" by simp
  ultimately show ?thesis by simp
qed

lemma u8_get_in:
  "0 \<le> j \<Longrightarrow> j < int (length src) \<Longrightarrow> u8_get src j = Fin (real (unat (src ! nat j)))"
  by (simp add: u8_get_def ta_get_def del: of_nat_unat)

lemma f32_get_in:
  "0 \<le> j \<Longrightarrow> j < int (length src) \<Longrightarrow> f32_get src j = src ! nat j"
  by (simp add: f32_get_def ta_get_def)

lemma concat_replicate_length: "length (concat (replicate n xs)) = n * length xs"
  by (induction n) simp_all

lemma concat_replicate_nth:
  "i < n * length xs \<Longrightarrow> concat (replicate n xs) ! i = xs ! (i mod length xs)"
proof (induction n arbitrary: i)
  case 0
  then show ?case by simp
next
  case (Suc n)
  show ?case
  proof (cases "i < length xs")
    case True
    then show ?thesis by (simp add: nth_append)
  next
    case False
    then have "i - length xs < n * length xs" using Suc.prems by simp
    then have "concat (replicate n xs) ! (i - length xs) = xs ! ((i - length xs) mod length xs)"
      by (rule Suc.IH)
    then show ?thesis using False by (simp add: nth_append le_mod_geq)
  qed
qed

section \<open>The sharpen as a function of the samples\<close>

lemma upto_0_2: "[0..2::int] = [0, 1, 2]"
  by (simp add: upto_rec1)

lemma deref_update_other: "d \<noteq> output \<Longrightarrow> deref (st[output := a]) d = deref st d"
  by (simp add: deref_def)

lemma st_get_set_other:
  "d \<noteq> output \<Longrightarrow> st_get (st_set st output i v) d j = st_get st d j"
  by (simp add: st_get_def st_set_def deref_update_other)

lemma sharpenPixel_eq:
  assumes o: "output < length st" and d: "d \<noteq> output"
  shows "sharpenPixel d w h amount output y x st =
           st[output :=
                ta_set (ta_set (ta_set (ta_set (st ! output)
                  ((y * w + x) * 4) (toUint8Clamp (sharpenValue (deref st d) w h amount y x 0)))
                  ((y * w + x) * 4 + 1) (toUint8Clamp (sharpenValue (deref st d) w h amount y x 1)))
                  ((y * w + x) * 4 + 2) (toUint8Clamp (sharpenValue (deref st d) w h amount y x 2)))
                  ((y * w + x) * 4 + 3) (toUint8Clamp (sharpenValue (deref st d) w h amount y x 3))]"
proof -
  have "sharpenPixel d w h amount output y x st =
          st_set (st_set (st_set (st_set st output ((y * w + x) * 4) (sharpenValue (deref st d) w h amount y x 0))
             output ((y * w + x) * 4 + 1) (sharpenValue (deref st d) w h amount y x 1))
             output ((y * w + x) * 4 + 2) (sharpenValue (deref st d) w h amount y x 2))
             output ((y * w + x) * 4 + 3) (sharpenValue (deref st d) w h amount y x 3)"
    unfolding sharpenPixel_def upto_0_2 Let_def
    by (simp add: st_get_set_other [OF d] sharpenValue_def flip: st_get_def)
  then show ?thesis by (simp only: st_set4 [OF o])
qed

lemma fold_store_frame:
  assumes "\<And>x a. B x (st0[output := a]) = st0[output := F x a]"
  shows "fold B xs (st0[output := a]) = st0[output := fold F xs a]"
  by (induction xs arbitrary: a) (simp_all add: assms)

lemma sharpenImage_run:
  assumes v: "validImage st img" and a: "\<not> jsle amount (Fin 0)"
  shows "sharpenImage st img amount =
           Inr (\<lparr>width = width img, height = height img, data = length st\<rparr>,
                st @ [map (\<lambda>j. toUint8Clamp
                               (sharpenValue (st ! data img) (width img) (height img) amount
                                  (j div 4 div width img) (j div 4 mod width img) (j mod 4)))
                        [0..4 * width img * height img - 1]])"
proof -
  define w h d where "w = width img" and "h = height img" and "d = data img"
  define zeros where "zeros = replicate (length (st ! d)) (0 :: 8 word)"
  define st0 where "st0 = st @ [zeros]"
  define oa where "oa = length st"
  have d: "d < length st" and w: "0 < w" and h: "0 < h"
    and len: "int (length (st ! d)) = 4 * w * h"
    using v by (simp_all add: validImage_def w_def h_def d_def)
  have o: "oa < length st0" and ne: "d \<noteq> oa"
    using d by (simp_all add: st0_def oa_def)
  have deref: "deref st d = st ! d" "deref (st0[oa := a]) d = st ! d" for a
    using d by (simp_all add: deref_def st0_def oa_def nth_append)
  let ?q = "\<lambda>y x c. toUint8Clamp (sharpenValue (st ! d) w h amount y x c)"
  let ?W = "\<lambda>y x a. ta_set (ta_set (ta_set (ta_set a ((y * w + x) * 4) (?q y x 0))
                     ((y * w + x) * 4 + 1) (?q y x 1)) ((y * w + x) * 4 + 2) (?q y x 2))
                     ((y * w + x) * 4 + 3) (?q y x 3)"
  have pix: "sharpenPixel d w h amount oa y x (st0[oa := a]) = st0[oa := ?W y x a]"
    for y x a
    using sharpenPixel_eq [of oa "st0[oa := a]" d w h amount y x] o ne
    by (simp add: deref)
  have row: "fold (sharpenPixel d w h amount oa y) xs (st0[oa := a])
               = st0[oa := fold (?W y) xs a]" for y xs a
    by (rule fold_store_frame) (rule pix)
  have img: "fold (\<lambda>y. fold (sharpenPixel d w h amount oa y) [0..w - 1]) ys (st0[oa := a])
               = st0[oa := fold (\<lambda>y. fold (?W y) [0..w - 1]) ys a]" for ys a
    by (rule fold_store_frame) (rule row)
  have zlen: "int (length zeros) = 4 * w * h" using len by (simp add: zeros_def)
  have st0: "st0 = st0[oa := zeros]" by (simp add: st0_def oa_def)
  have loops: "fold (\<lambda>y. fold (sharpenPixel d w h amount oa y) [0..w - 1]) [0..h - 1] st0
                 = st @ [map (\<lambda>j. ?q (j div 4 div w) (j div 4 mod w) (j mod 4)) [0..4 * w * h - 1]]"
    apply (subst st0)
    apply (simp only: img image_fill [OF zlen w, of ?q])
    apply (simp add: st0_def oa_def)
    done
  have whpos: "0 < w * h" using w h by simp
  have mk: "newImageData (st @ [map f [0..4 * w * h - 1]]) oa w h
              = Inr \<lparr>width = w, height = h, data = oa\<rparr>" for f :: "int \<Rightarrow> 8 word"
    using w h whpos by (simp add: newImageData_def deref_def mult.assoc oa_def)
  have eta: "(\<lambda>y. fold (\<lambda>x. sharpenPixel d w h amount oa y x) [0..w - 1])
               = (\<lambda>y. fold (sharpenPixel d w h amount oa y) [0..w - 1])" by simp
  show ?thesis
    unfolding sharpenImage_def
    by (simp add: a Let_def newUint8ClampedArray_def w_def [symmetric] h_def [symmetric]
        d_def [symmetric] deref zeros_def [symmetric] st0_def [symmetric] oa_def [symmetric]
        loops mk)
qed

lemma toUint8Clamp_of_int:
  assumes "0 \<le> k" and "k \<le> 255"
  shows "toUint8Clamp (Fin (of_int k)) = word_of_int k"
proof -
  have "nat k < 256" using assms by simp
  then have "toUint8Clamp (Fin (real (nat k))) = word_of_nat (nat k)"
    by (rule toUint8Clamp_of_nat)
  moreover have "real (nat k) = of_int k" using assms(1) by simp
  moreover have "(word_of_nat (nat k) :: 8 word) = word_of_int k" using assms(1) by simp
  ultimately show ?thesis by simp
qed

lemma clampNum_of_int:
  "clampNum (Fin (of_int m)) (Fin 0) (Fin 255) = Fin (of_int (clamp m 0 255))"
  by (simp add: clampNum_def jsmax_def jsmin_def clamp_def max_def min_def)

lemma clamp_byte: "0 \<le> clamp m 0 255 \<and> clamp m 0 255 \<le> 255"
  by (simp add: clamp_def)

lemma jslt_not_jsle: "jslt (Fin 0) x \<Longrightarrow> \<not> jsle x (Fin 0)"
  by (cases x) simp_all

lemma jsmul_commute: "jsmul a b = jsmul b a"
  by (cases a; cases b) (simp_all add: mult.commute)

lemma stored_round_clamp:
  "toUint8Clamp (clampNum (jsround v) (Fin 0) (Fin 255)) = roundClampByte v"
proof (cases v)
  case (Fin a)
  have "clampNum (jsround (Fin a)) (Fin 0) (Fin 255) = Fin (of_int (clamp (round a) 0 255))"
    by (simp only: jsround.simps round_def clampNum_of_int)
  then show ?thesis
    using clamp_byte [of "round a"] by (simp only: Fin toUint8Clamp_of_int roundClampByte.simps)
qed (simp_all add: clampNum_def jsmax_def jsmin_def)

lemma sharpenValue_colour:
  assumes len: "int (length src) = 4 * w * h" and w: "0 < w" and h: "0 < h"
    and y: "0 \<le> y" "y \<le> h - 1" and x: "0 \<le> x" "x \<le> w - 1" and c: "0 \<le> c" "c < 3"
  shows "toUint8Clamp (sharpenValue src w h amount y x c) =
           roundClampByte
             (jssub (jsmul (Fin (real (unat (src ! nat ((y * w + x) * 4 + c)))))
                           (jsadd (Fin 1) (jsmul (Fin 4) amount)))
                    (jsmul amount
                       (jsadd (jsadd (jsadd
                          (Fin (real (unat (src ! nat ((y * w + clamp (x - 1) 0 (w - 1)) * 4 + c)))))
                          (Fin (real (unat (src ! nat ((y * w + clamp (x + 1) 0 (w - 1)) * 4 + c))))))
                          (Fin (real (unat (src ! nat ((clamp (y - 1) 0 (h - 1) * w + x) * 4 + c))))))
                          (Fin (real (unat (src ! nat ((clamp (y + 1) 0 (h - 1) * w + x) * 4 + c))))))))"
proof -
  have c3: "c \<le> 3" "c \<noteq> 3" using c by simp_all
  have g: "u8_get src ((y' * w + x') * 4 + c) = Fin (real (unat (src ! nat ((y' * w + x') * 4 + c))))"
    if "0 \<le> y'" "y' \<le> h - 1" "0 \<le> x'" "x' \<le> w - 1" for y' x'
  proof -
    have "0 \<le> (y' * w + x') * 4 + c \<and> (y' * w + x') * 4 + c < 4 * w * h"
      using that c(1) c3(1) by (rule sample_index_range)
    then show ?thesis using len by (intro u8_get_in) simp_all
  qed
  note cx = clamp_range [OF w] and cy = clamp_range [OF h]
  have g0: "u8_get src ((y * w + x) * 4 + c) = Fin (real (unat (src ! nat ((y * w + x) * 4 + c))))"
    using y x by (rule g)
  have gl: "u8_get src ((y * w + clamp (x - 1) 0 (w - 1)) * 4 + c)
              = Fin (real (unat (src ! nat ((y * w + clamp (x - 1) 0 (w - 1)) * 4 + c))))"
    using y cx [of "x - 1"] by (intro g) simp_all
  have gr: "u8_get src ((y * w + clamp (x + 1) 0 (w - 1)) * 4 + c)
              = Fin (real (unat (src ! nat ((y * w + clamp (x + 1) 0 (w - 1)) * 4 + c))))"
    using y cx [of "x + 1"] by (intro g) simp_all
  have gt: "u8_get src ((clamp (y - 1) 0 (h - 1) * w + x) * 4 + c)
              = Fin (real (unat (src ! nat ((clamp (y - 1) 0 (h - 1) * w + x) * 4 + c))))"
    using x cy [of "y - 1"] by (intro g) simp_all
  have gb: "u8_get src ((clamp (y + 1) 0 (h - 1) * w + x) * 4 + c)
              = Fin (real (unat (src ! nat ((clamp (y + 1) 0 (h - 1) * w + x) * 4 + c))))"
    using x cy [of "y + 1"] by (intro g) simp_all
  show ?thesis
    unfolding sharpenValue_def g0 gl gr gt gb
    by (simp only: c3(2) if_False stored_round_clamp jsmul_commute [of amount "Fin 4"])
qed

lemma sharpenValue_alpha:
  assumes len: "int (length src) = 4 * w * h" and w: "0 < w"
    and j: "0 \<le> j" "j < 4 * w * h" and c: "j mod 4 = 3"
  shows "toUint8Clamp (sharpenValue src w h amount (j div 4 div w) (j div 4 mod w) 3) = src ! nat j"
proof -
  note pc = pixel_coords [OF j w]
  have e: "(j div 4 div w * w + j div 4 mod w) * 4 + 3 = j" using pc c by simp
  have "sharpenValue src w h amount (j div 4 div w) (j div 4 mod w) 3
          = u8_get src ((j div 4 div w * w + j div 4 mod w) * 4 + 3)"
    by (simp add: sharpenValue_def)
  then have "sharpenValue src w h amount (j div 4 div w) (j div 4 mod w) 3 = u8_get src j"
    by (simp only: e)
  also have "\<dots> = Fin (real (unat (src ! nat j)))" using j len by (intro u8_get_in) simp_all
  finally show ?thesis by (simp only: toUint8Clamp_unat)
qed

section \<open>The formula of the sharpen\<close>

text \<open>
  Claim C2. For every well-formed RGBA image and every \<open>amount > 0\<close>, \<open>sharpenImage\<close>
  returns a new image of the same dimensions whose samples are those of \<open>sharpenSpec\<close>:
  in each of the three colour channels of each pixel,
  \<open>center (1 + 4 amount) - amount (left + right + top + bottom)\<close> over the four
  neighbours with coordinates clamped to the image, evaluated in double arithmetic,
  rounded to the nearest integer and clamped to \<open>[0, 255]\<close> (and, in the alpha channel,
  the alpha of the input).
\<close>

theorem sharpenImage_formula:
  assumes v: "validImage st img" and a: "jslt (Fin 0) amount"
  shows "sharpenImage st img amount =
           Inr (\<lparr>width = width img, height = height img, data = length st\<rparr>,
                st @ [sharpenSpec (st ! data img) (width img) (height img) amount])"
proof -
  define w h src where "w = width img" and "h = height img" and "src = st ! data img"
  have w: "0 < w" and h: "0 < h" and len: "int (length src) = 4 * w * h"
    using v by (simp_all add: validImage_def w_def h_def src_def)
  have na: "\<not> jsle amount (Fin 0)" using a by (rule jslt_not_jsle)
  have "map (\<lambda>j. toUint8Clamp (sharpenValue src w h amount (j div 4 div w) (j div 4 mod w) (j mod 4)))
            [0..4 * w * h - 1] = sharpenSpec src w h amount"
    unfolding sharpenSpec_def Let_def
  proof (rule map_cong [OF refl])
    fix j assume "j \<in> set [0..4 * w * h - 1]"
    then have j: "0 \<le> j" "j < 4 * w * h" by simp_all
    note pc = pixel_coords [OF j w]
    let ?s = "\<lambda>p. Fin (real (unat (src ! nat (p * 4 + j mod 4))))"
    show "toUint8Clamp (sharpenValue src w h amount (j div 4 div w) (j div 4 mod w) (j mod 4)) =
            (if j mod 4 = 3 then src ! nat j
             else roundClampByte
                    (jssub (jsmul (?s (j div 4 div w * w + j div 4 mod w))
                                  (jsadd (Fin 1) (jsmul (Fin 4) amount)))
                           (jsmul amount
                              (jsadd (jsadd (jsadd
                                 (?s (j div 4 div w * w + clamp (j div 4 mod w - 1) 0 (w - 1)))
                                 (?s (j div 4 div w * w + clamp (j div 4 mod w + 1) 0 (w - 1))))
                                 (?s (clamp (j div 4 div w - 1) 0 (h - 1) * w + j div 4 mod w)))
                                 (?s (clamp (j div 4 div w + 1) 0 (h - 1) * w + j div 4 mod w))))))"
    proof (cases "j mod 4 = 3")
      case True
      then show ?thesis using sharpenValue_alpha [OF len w j True, of amount] by simp
    next
      case False
      then have c: "0 \<le> j mod 4" "j mod 4 < 3" using pc by simp_all
      have y: "0 \<le> j div 4 div w" "j div 4 div w \<le> h - 1"
        and x: "0 \<le> j div 4 mod w" "j div 4 mod w \<le> w - 1" using pc by simp_all
      show ?thesis
        using sharpenValue_colour [OF len w h y x c, of amount] False by (simp only: if_False)
    qed
  qed
  then show ?thesis
    using sharpenImage_run [OF v na]
    by (simp only: w_def [symmetric] h_def [symmetric] src_def [symmetric])
qed

theorem sharpenImage_formula_witness:
  "validImage [[10, 20, 30, 255]] \<lparr>width = 1, height = 1, data = 0\<rparr> \<and> jslt (Fin 0) (Fin 1) \<and>
   sharpenImage [[10, 20, 30, 255]] \<lparr>width = 1, height = 1, data = 0\<rparr> (Fin 1) =
     Inr (\<lparr>width = 1, height = 1, data = 1\<rparr>,
          [[10, 20, 30, 255], sharpenSpec [10, 20, 30, 255] 1 1 (Fin 1)])"
proof -
  have v: "validImage [[10, 20, 30, 255]] \<lparr>width = 1, height = 1, data = 0\<rparr>"
    by (simp add: validImage_def)
  show ?thesis
    using v sharpenImage_formula [OF v, of "Fin 1"] by simp
qed

section \<open>The sharpen keeps the alpha channel\<close>

lemma alphaChannel_eq:
  assumes "length out = length src"
    and "\<And>j. j < length src \<Longrightarrow> j mod 4 = 3 \<Longrightarrow> out ! j = src ! j"
  shows "alphaChannel out = alphaChannel src"
  unfolding alphaChannel_def assms(1)
proof (rule map_cong [OF refl])
  fix p assume "p \<in> set [0..<length src div 4]"
  then have "4 * p + 3 < length src" "(4 * p + 3) mod 4 = 3" by (simp, presburger+)
  then show "out ! (4 * p + 3) = src ! (4 * p + 3)" by (rule assms(2))
qed

text \<open>
  Claim C6. For every well-formed image and every amount (also a non-positive, an
  infinite or a NaN one), \<open>sharpenImage\<close> returns an image of the same dimensions whose
  alpha samples are, pixel by pixel, the alpha samples of the input.
\<close>

theorem sharpenImage_alpha:
  assumes v: "validImage st img"
  shows "\<exists>img' st'. sharpenImage st img amount = Inr (img', st') \<and>
           width img' = width img \<and> height img' = height img \<and>
           length (st' ! data img') = length (st ! data img) \<and>
           alphaChannel (st' ! data img') = alphaChannel (st ! data img)"
proof (cases "jsle amount (Fin 0)")
  case True
  then show ?thesis by (simp add: sharpenImage_def)
next
  case False
  define w h src where "w = width img" and "h = height img" and "src = st ! data img"
  have w: "0 < w" and h: "0 < h" and len: "int (length src) = 4 * w * h"
    using v by (simp_all add: validImage_def w_def h_def src_def)
  define out where
    "out = map (\<lambda>j. toUint8Clamp (sharpenValue src w h amount (j div 4 div w) (j div 4 mod w) (j mod 4)))
               [0..4 * w * h - 1]"
  have run: "sharpenImage st img amount
               = Inr (\<lparr>width = w, height = h, data = length st\<rparr>, st @ [out])"
    using sharpenImage_run [OF v False]
    by (simp only: w_def [symmetric] h_def [symmetric] src_def [symmetric] out_def [symmetric])
  have olen: "length out = length src" using len by (simp add: out_def)
  have "out ! j = src ! j" if "j < length src" "j mod 4 = 3" for j
  proof -
    have j: "0 \<le> int j" "int j < 4 * w * h" using that(1) len by simp_all
    have m: "int j mod 4 = 3" using that(2) by presburger
    have nth: "[0..4 * w * h - 1] ! j = int j" using j(2) by (simp add: nth_upto)
    have "j < length [0..4 * w * h - 1]" using j(2) by simp
    then have "out ! j = toUint8Clamp (sharpenValue src w h amount (int j div 4 div w)
                                         (int j div 4 mod w) (int j mod 4))"
      unfolding out_def by (simp only: nth_map nth)
    then show ?thesis using sharpenValue_alpha [OF len w j m, of amount] by (simp add: m)
  qed
  with olen have "alphaChannel out = alphaChannel src" by (rule alphaChannel_eq)
  then show ?thesis using run olen by (simp add: src_def w_def h_def)
qed

theorem sharpenImage_alpha_witness:
  "validImage [[10, 20, 30, 255]] \<lparr>width = 1, height = 1, data = 0\<rparr> \<and>
   (\<exists>img' st'. sharpenImage [[10, 20, 30, 255]] \<lparr>width = 1, height = 1, data = 0\<rparr> (Fin 2)
                  = Inr (img', st') \<and>
      alphaChannel (st' ! data img') = alphaChannel [10, 20, 30, 255])"
proof -
  have v: "validImage [[10, 20, 30, 255]] \<lparr>width = 1, height = 1, data = 0\<rparr>"
    by (simp add: validImage_def)
  show ?thesis
    using v sharpenImage_alpha [OF v, of "Fin 2"] by auto
qed


section \<open>The closed form of the kernel\<close>

lemma buildKernel_closed:
  assumes "0 \<le> sz"
  shows "buildKernel mexp sz sigma =
           Inr (map (\<lambda>j. fround (jsdiv (fround (gaussValue mexp sigma (j - sz div 2)))
                                        (gaussSum mexp sigma (sz div 2))))
                  [0..sz - 1], sz div 2)"
proof -
  define r where "r = sz div 2"
  define V where "V = gaussValue mexp sigma"
  define S where "S = gaussSum mexp sigma r"
  define k0 where "k0 = replicate (nat sz) (Fin 0)"
  define k1 where "k1 = fold (\<lambda>i k. ta_set k (i + r) (fround (V i))) [- r..r] k0"
  define k2 where "k2 = fold (\<lambda>i k. ta_set k i (fround (jsdiv (f32_get k i) S))) [0..sz - 1] k1"
  have r0: "0 \<le> r" and r2: "sz - 1 \<le> 2 * r" using assms(1) by (auto simp: r_def)
  have loop1: "fold (\<lambda>i (k, t). (ta_set k (i + r) (fround (V i)), jsadd t (V i)))
                 [- r..r] (k0, Fin 0) = (k1, S)"
    by (simp add: fold_pair_split k1_def S_def gaussSum_def V_def)
  have run: "buildKernel mexp sz sigma = Inr (k2, r)"
    using assms(1)
    apply (simp only: buildKernel_def newFloat32Array_def Let_def f32_set_def
        gaussValue_def [symmetric] V_def [symmetric])
    apply (simp add: r_def [symmetric] k0_def [symmetric] loop1 k2_def)
    done
  have len1: "length k1 = nat sz" by (simp add: k1_def k0_def)
  have get1: "ta_get k1 j = (if 0 \<le> j \<and> j < sz then Some (fround (V (j - r))) else None)" for j
    unfolding k1_def fold_set_get using r2 by (auto simp: k0_def ta_get_def)
  have get2: "ta_get k2 j = (if 0 \<le> j \<and> j < sz then Some (fround (jsdiv (fround (V (j - r))) S)) else None)" for j
    by (auto simp: k2_def fold_div_get get1)
  have "k2 = map (\<lambda>j. fround (jsdiv (fround (V (j - r))) S)) [0..sz - 1]"
    by (rule ta_ext) (simp add: get2 ta_get_map_upto)
  with run show ?thesis by (simp add: r_def S_def V_def)
qed

lemma buildKernel_negative: "sz < 0 \<Longrightarrow> buildKernel mexp sz sigma = Inl RangeError"
  by (simp add: buildKernel_def newFloat32Array_def)

section \<open>Kernels that hold NaN\<close>

lemma jsmul_NaN_right [simp]: "jsmul x NaN = NaN"
  by (cases x) simp_all

lemma jsadd_NaN_right [simp]: "jsadd x NaN = NaN"
  by (cases x) simp_all

lemma jsdiv_NaN_right [simp]: "jsdiv x NaN = NaN"
  by (cases x) simp_all

lemma fold_jsadd_NaN_acc: "fold (\<lambda>i s. jsadd s (V i)) xs NaN = NaN"
  by (induction xs) simp_all

lemma fold_jsadd_NaN:
  "i \<in> set xs \<Longrightarrow> V i = NaN \<Longrightarrow> fold (\<lambda>i s. jsadd s (V i)) xs s0 = NaN"
  by (induction xs arbitrary: s0) (auto simp: fold_jsadd_NaN_acc)

lemma windowSum_NaN:
  assumes "- r \<le> k" "k \<le> r" and "f32_get ws (k + r) = NaN"
  shows "windowSum ws r sample = NaN"
  unfolding windowSum_def
  by (rule fold_jsadd_NaN [where i = k]) (use assms in simp_all)

lemma gaussianBlur_NaN_window:
  assumes v: "validImage st img" and k: "buildKernel mexp sz sigma = Inr (ws, r)"
    and n: "- r \<le> k" "k \<le> r" "f32_get ws (k + r) = NaN"
  shows "gaussianBlur mexp st img sz sigma =
           Inr (\<lparr>width = width img, height = height img, data = length st\<rparr>,
                st @ [replicate (length (st ! data img)) 0])"
proof -
  have len: "nat (4 * width img * height img) = length (st ! data img)"
    using v by (auto simp: validImage_def)
  have Y: "convolveY (windowSum ws r) src (width img) (height img)
             = replicate (length (st ! data img)) NaN" for src
    by (simp add: convolveY_def windowSum_NaN [OF n] map_replicate_const len)
  show ?thesis
    using gaussianBlur_run [OF v k] by (simp add: Y)
qed

lemma gaussianBlur_even_size:
  assumes v: "validImage st img" and sz: "2 \<le> sz" "even sz"
  shows "gaussianBlur mexp st img sz sigma =
           Inr (\<lparr>width = width img, height = height img, data = length st\<rparr>,
                st @ [replicate (length (st ! data img)) 0])"
proof -
  define r where "r = sz div 2"
  have r: "0 \<le> r" and szr: "sz = 2 * r" using sz unfolding r_def by presburger+
  from sz obtain ws where k: "buildKernel mexp sz sigma = Inr (ws, r)"
    using buildKernel_total [where sz = sz and mexp = mexp and sigma = sigma] unfolding r_def by auto
  have "length ws = nat sz" using buildKernel_length [OF k] by simp
  then have n: "f32_get ws (r + r) = NaN" using szr by (simp add: f32_get_def ta_get_def)
  show ?thesis
    by (rule gaussianBlur_NaN_window [OF v k _ _ n]) (use r in simp_all)
qed

lemma gaussSum_NaN:
  assumes "0 \<le> r" and "gaussValue mexp sigma 0 = NaN"
  shows "gaussSum mexp sigma r = NaN"
  unfolding gaussSum_def
  by (rule fold_jsadd_NaN [where i = 0]) (use assms in simp_all)

lemma buildKernel_NaN:
  assumes "0 \<le> sz" and "gaussValue mexp sigma 0 = NaN"
  shows "buildKernel mexp sz sigma = Inr (replicate (nat sz) NaN, sz div 2)"
proof -
  have "0 \<le> sz div 2" using assms(1) by simp
  then have "gaussSum mexp sigma (sz div 2) = NaN" using assms(2) by (rule gaussSum_NaN)
  then show ?thesis
    using assms(1) by (simp add: buildKernel_closed map_replicate_const)
qed

lemma gaussValue_zero_NaN:
  assumes "jsmul sigma sigma = Fin 0"
  shows "gaussValue mexp sigma 0 = NaN"
  by (simp add: gaussValue_def assms)

lemma square_underflow:
  assumes "s * s < 2 powi (- 1075)"
  shows "jsmul (Fin s) (Fin s) = Fin 0"
proof -
  have a: "\<bar>s * s\<bar> < 2 powi (- 1075)" using assms by simp
  have "(2::real) powi (- 1075) \<le> 2 ^ 1023" by (simp add: power_int_minus)
  with a have "\<bar>s * s\<bar> \<le> 2 ^ 1023" by linarith
  then show ?thesis using dbl_underflow [OF a] by (simp add: toDouble_fin)
qed

lemma buildKernel_sigma_underflow:
  assumes "0 \<le> sz" and "s * s < 2 powi (- 1075)"
  shows "buildKernel mexp sz (Fin s) = Inr (replicate (nat sz) NaN, sz div 2)"
  by (intro buildKernel_NaN assms(1) gaussValue_zero_NaN square_underflow assms(2))

lemma gaussianBlur_sigma_underflow:
  assumes v: "validImage st img" and "0 \<le> sz" and "s * s < 2 powi (- 1075)"
  shows "gaussianBlur mexp st img sz (Fin s) =
           Inr (\<lparr>width = width img, height = height img, data = length st\<rparr>,
                st @ [replicate (length (st ! data img)) 0])"
proof -
  define r where "r = sz div 2"
  have r: "0 \<le> r" using assms(2) by (simp add: r_def)
  have k: "buildKernel mexp sz (Fin s) = Inr (replicate (nat sz) NaN, r)"
    unfolding r_def by (rule buildKernel_sigma_underflow [OF assms(2,3)])
  have n: "f32_get (replicate (nat sz) NaN) (0 + r) = NaN"
    using assms(2) r by (simp add: f32_get_def ta_get_def)
  show ?thesis
    by (rule gaussianBlur_NaN_window [OF v k _ _ n]) (use r in simp_all)
qed

section \<open>Kernels with exact weights\<close>

lemma toDouble_exact:
  assumes "\<bar>m\<bar> < 2 ^ 53" and "- 1074 \<le> k" and "k \<le> 970"
  shows "toDouble (of_int m * 2 powi k) = Fin (of_int m * 2 powi k)"
proof -
  have "real_of_int \<bar>m\<bar> < 2 ^ 53" using assms(1) by (metis of_int_less_numeral_power_cancel_iff)
  then have m: "\<bar>real_of_int m\<bar> \<le> 2 ^ 53" by simp
  have "(2::real) powi k \<le> 2 powi 970" using assms(3) by (intro power_int_increasing) simp_all
  then have k: "(2::real) powi k \<le> 2 ^ 970" by simp
  have "\<bar>of_int m * 2 powi k\<bar> = \<bar>real_of_int m\<bar> * 2 powi k" by (simp add: abs_mult)
  also have "\<dots> \<le> 2 ^ 53 * 2 ^ 970" using m k by (intro mult_mono) simp_all
  also have "\<dots> = (2::real) ^ 1023" by (simp flip: power_add)
  finally show ?thesis using assms(1,2) by (simp add: toDouble_fin dbl_exact)
qed

lemma sigma_square_cases:
  assumes "2 powi (- 1075) < s * s"
  obtains d where "0 < d" and "jsmul (Fin 2) (jsmul (Fin s) (Fin s)) = Fin d"
  | "jsmul (Fin 2) (jsmul (Fin s) (Fin s)) = PInf"
proof -
  have t: "0 < (2::real) powi (- 1074)" "(2::real) powi (- 1075) < 2 powi (- 1074)"
    by (simp_all add: power_int_minus)
  show ?thesis
  proof (cases "s * s" rule: toDouble_cases)
    case 1
    have d0: "2 powi (- 1074) \<le> dbl (s * s)" using assms by (rule dbl_pos)
    then have x: "2 powi (- 1075) < 2 * dbl (s * s)" using t by linarith
    show ?thesis
    proof (cases "2 * dbl (s * s)" rule: toDouble_cases)
      case a: 1
      have "0 < dbl (2 * dbl (s * s))" using dbl_pos [OF x] t by linarith
      then show ?thesis using that(1) 1 a by simp
    next
      case 2
      then show ?thesis using that(2) 1 by simp
    next
      case 3
      with d0 t show ?thesis by linarith
    qed
  next
    case 2
    then show ?thesis using that(2) by simp
  next
    case 3
    have "0 \<le> s * s" by simp
    with 3 show ?thesis by linarith
  qed
qed

lemma gaussValue_0:
  assumes "2 powi (- 1075) < s * s" and "mexp 0 = 1"
  shows "gaussValue mexp (Fin s) 0 = Fin 1"
  using assms(1)
proof (cases rule: sigma_square_cases)
  case (1 d)
  then show ?thesis by (simp add: gaussValue_def assms(2))
next
  case 2
  then show ?thesis by (simp add: gaussValue_def assms(2))
qed

lemma upto_0_0: "[0..0::int] = [0]"
  by (simp add: upto_rec1)

lemma buildKernel_size_one:
  assumes "2 powi (- 1075) < s * s" and "mexp 0 = 1"
  shows "buildKernel mexp 1 (Fin s) = Inr ([Fin 1], 0)"
proof -
  have V: "gaussValue mexp (Fin s) 0 = Fin 1" using assms by (rule gaussValue_0)
  have S: "gaussSum mexp (Fin s) 0 = Fin 1"
    by (simp add: gaussSum_def upto_0_0 V)
  show ?thesis
    by (simp add: buildKernel_closed upto_0_0 S V)
qed

lemma exp_underflow:
  assumes "x \<le> - 2048"
  shows "toDouble (exp x) = Fin 0"
proof -
  have "(2::real) \<le> exp 1" using exp_ge_add_one_self [of 1] by simp
  then have "(2::real) ^ 2048 \<le> exp 1 ^ 2048" by (intro power_mono) simp_all
  also have "\<dots> = exp (2048 :: real)" using exp_of_nat_mult [of 2048 "1 :: real"] by simp
  finally have "(2::real) ^ 2048 \<le> exp 2048" .
  then have "1 / exp (2048 :: real) \<le> 1 / 2 ^ 2048"
    by (intro divide_left_mono) simp_all
  then have b: "exp (- 2048 :: real) \<le> 1 / 2 ^ 2048"
    by (simp only: exp_minus inverse_eq_divide)
  have "exp x \<le> exp (- 2048)" using assms by simp
  also note b
  also have "(1::real) / 2 ^ 2048 < 2 powi (- 1075)" by (simp add: power_int_minus)
  finally have "exp x < 2 powi (- 1075)" .
  moreover have "\<bar>exp x\<bar> = exp x" by simp
  ultimately have a: "\<bar>exp x\<bar> < 2 powi (- 1075)" by (simp only:)
  have "(2::real) powi (- 1075) \<le> 2 ^ 1023" by (simp add: power_int_minus)
  with a have "\<bar>exp x\<bar> \<le> 2 ^ 1023" by linarith
  then show ?thesis using dbl_underflow [OF a] by (simp add: toDouble_fin)
qed

lemma toDouble_4096: "toDouble (1 / 4096) = Fin (1 / 4096)"
  using toDouble_exact [of 1 "- 12"] by (simp add: power_int_minus)

lemma toDouble_2048: "toDouble (1 / 2048) = Fin (1 / 2048)"
  using toDouble_exact [of 1 "- 11"] by (simp add: power_int_minus)

lemma toDouble_m2048: "toDouble (- 2048) = Fin (- 2048)"
  using toDouble_of_int [of "- 2048"] by simp

lemma gaussValue_64:
  "gaussValue exp (Fin (1 / 64)) 0 = Fin 1"
  "gaussValue exp (Fin (1 / 64)) 1 = Fin 0"
  "gaussValue exp (Fin (1 / 64)) (- 1) = Fin 0"
  by (simp_all add: gaussValue_def toDouble_4096 toDouble_2048 toDouble_m2048 exp_underflow)

lemma upto_m1_1: "[- 1..1::int] = [- 1, 0, 1]"
  by (simp add: upto_rec1)

lemma upto_0_1: "[0..1::int] = [0, 1]"
  by (simp add: upto_rec1)

lemma buildKernel_2_64: "buildKernel exp 2 (Fin (1 / 64)) = Inr ([Fin 0, Fin 1], 1)"
proof -
  have S: "gaussSum exp (Fin (1 / 64)) 1 = Fin 1"
    by (simp add: gaussSum_def upto_m1_1 gaussValue_64)
  show ?thesis
    by (simp add: buildKernel_closed upto_0_1 S gaussValue_64)
qed


section \<open>Convolutions that return their input\<close>

lemma nth_upto_pixels: "0 \<le> int i \<Longrightarrow> int i < n \<Longrightarrow> [0..n - 1] ! i = int i"
  by (simp add: nth_upto)

lemma convolveX_identity:
  assumes len: "int (length src) = 4 * w * h" and w: "0 < w"
    and cv: "\<And>sample b. (\<And>k. \<exists>b'. sample k = Fin (real (unat (b' :: 8 word)))) \<Longrightarrow>
               sample 0 = Fin (real (unat (b :: 8 word))) \<Longrightarrow> cv sample = Fin (real (unat b))"
  shows "convolveX cv src w h = map (\<lambda>b. Fin (real (unat b))) src"
proof (rule nth_equalityI)
  show "length (convolveX cv src w h) = length (map (\<lambda>b. Fin (real (unat b))) src)"
    using len by (simp add: convolveX_length)
next
  fix i assume "i < length (convolveX cv src w h)"
  then have i: "0 \<le> int i" "int i < 4 * w * h" "i < length src" "int i < int (length src)"
    using len by (simp_all add: convolveX_length)
  have h: "0 < h"
  proof (rule ccontr)
    assume "\<not> 0 < h"
    then have "w * h \<le> 0" using w by (simp add: mult_le_0_iff)
    with i(1,2) show False by simp
  qed
  note pc = pixel_coords [OF i(1,2) w]
  let ?s = "\<lambda>k. u8_get src ((int i div 4 div w * w + clamp (int i div 4 mod w + k) 0 (w - 1)) * 4
                                     + int i mod 4)"
  have nth: "[0..4 * w * h - 1] ! i = int i" using i(1,2) by (rule nth_upto_pixels)
  have "i < length [0..4 * w * h - 1]" using i(2) by simp
  then have "convolveX cv src w h ! i = fround (cv ?s)"
    unfolding convolveX_def Let_def by (simp only: nth_map nth)
  also have "cv ?s = Fin (real (unat (src ! i)))"
  proof (rule cv)
    fix k
    have "0 \<le> (int i div 4 div w * w + clamp (int i div 4 mod w + k) 0 (w - 1)) * 4 + int i mod 4 \<and>
          (int i div 4 div w * w + clamp (int i div 4 mod w + k) 0 (w - 1)) * 4 + int i mod 4
            < 4 * w * h"
      using pc clamp_range [OF w] by (intro sample_index_range) simp_all
    then have "?s k = Fin (real (unat (src ! nat ((int i div 4 div w * w
                 + clamp (int i div 4 mod w + k) 0 (w - 1)) * 4 + int i mod 4))))"
      using len by (intro u8_get_in) simp_all
    then show "\<exists>b' :: 8 word. ?s k = Fin (real (unat b'))" by (rule exI)
  next
    have "clamp (int i div 4 mod w + 0) 0 (w - 1) = int i div 4 mod w"
      using pc by (simp add: clamp_def)
    then have "?s 0 = u8_get src (int i)" using pc by simp
    then show "?s 0 = Fin (real (unat (src ! i)))"
      using u8_get_in [OF i(1,4)] by simp
  qed
  finally show "convolveX cv src w h ! i = map (\<lambda>b. Fin (real (unat b))) src ! i"
    using i(3) by (simp add: toFloat32_byte del: of_nat_unat)
qed

lemma f32_get_map_u8: "f32_get (map (\<lambda>b. Fin (real (unat b))) (src :: 8 word list)) i = u8_get src i"
  by (auto simp: f32_get_def u8_get_def ta_get_def simp del: of_nat_unat)

lemma convolveY_identity:
  fixes src :: "8 word list"
  assumes len: "int (length src) = 4 * w * h" and w: "0 < w"
    and cv: "\<And>sample b. (\<And>k. \<exists>b'. sample k = Fin (real (unat (b' :: 8 word)))) \<Longrightarrow>
               sample 0 = Fin (real (unat (b :: 8 word))) \<Longrightarrow> cv sample = Fin (real (unat b))"
  shows "convolveY cv (map (\<lambda>b. Fin (real (unat b))) src) w h = map (\<lambda>b. Fin (real (unat b))) src"
proof (rule nth_equalityI)
  show "length (convolveY cv (map (\<lambda>b. Fin (real (unat b))) src) w h)
          = length (map (\<lambda>b. Fin (real (unat b))) src)"
    using len by (simp add: convolveY_length)
next
  fix i assume "i < length (convolveY cv (map (\<lambda>b. Fin (real (unat b))) src) w h)"
  then have i: "0 \<le> int i" "int i < 4 * w * h" "i < length src" "int i < int (length src)"
    using len by (simp_all add: convolveY_length)
  have h: "0 < h"
  proof (rule ccontr)
    assume "\<not> 0 < h"
    then have "w * h \<le> 0" using w by (simp add: mult_le_0_iff)
    with i(1,2) show False by simp
  qed
  note pc = pixel_coords [OF i(1,2) w]
  let ?s = "\<lambda>k. u8_get src ((clamp (int i div 4 div w + k) 0 (h - 1) * w + int i div 4 mod w) * 4
                                     + int i mod 4)"
  have nth: "[0..4 * w * h - 1] ! i = int i" using i(1,2) by (rule nth_upto_pixels)
  have "i < length [0..4 * w * h - 1]" using i(2) by simp
  then have "convolveY cv (map (\<lambda>b. Fin (real (unat b))) src) w h ! i = cv ?s"
    unfolding convolveY_def Let_def f32_get_map_u8 by (simp only: nth_map nth)
  also have "cv ?s = Fin (real (unat (src ! i)))"
  proof (rule cv)
    fix k
    have "0 \<le> (clamp (int i div 4 div w + k) 0 (h - 1) * w + int i div 4 mod w) * 4 + int i mod 4 \<and>
          (clamp (int i div 4 div w + k) 0 (h - 1) * w + int i div 4 mod w) * 4 + int i mod 4
            < 4 * w * h"
      using pc clamp_range [OF h] by (intro sample_index_range) simp_all
    then have "?s k = Fin (real (unat (src ! nat ((clamp (int i div 4 div w + k) 0 (h - 1) * w
                 + int i div 4 mod w) * 4 + int i mod 4))))"
      using len by (intro u8_get_in) simp_all
    then show "\<exists>b' :: 8 word. ?s k = Fin (real (unat b'))" by (rule exI)
  next
    have "clamp (int i div 4 div w + 0) 0 (h - 1) = int i div 4 div w"
      using pc by (simp add: clamp_def)
    then have "?s 0 = u8_get src (int i)" using pc by simp
    then show "?s 0 = Fin (real (unat (src ! i)))"
      using u8_get_in [OF i(1,4)] by simp
  qed
  finally show "convolveY cv (map (\<lambda>b. Fin (real (unat b))) src) w h ! i
                  = map (\<lambda>b. Fin (real (unat b))) src ! i"
    using i(3) by simp
qed

lemma map_toUint8Clamp_unat: "map toUint8Clamp (map (\<lambda>b. Fin (real (unat b))) src) = src"
  by (induction src) (simp_all only: list.map toUint8Clamp_unat)

lemma windowSum_unit:
  assumes "sample 0 = Fin (real (unat (b :: 8 word)))"
  shows "windowSum [Fin 1] 0 sample = Fin (real (unat b))"
  by (simp add: windowSum_def upto_0_0 f32_get_def ta_get_def assms toDouble_byte del: of_nat_unat)

section \<open>The blur with size 1\<close>

text \<open>
  Claim C5, amended. For every well-formed image and every finite \<open>sigma\<close> whose square
  does not underflow to zero (it is above \<open>2\<^sup>-\<^sup>1\<^sup>0\<^sup>7\<^sup>5\<close>, half the least positive double),
  \<open>gaussianBlur\<close> with size 1 returns a new image of the same dimensions whose samples are
  those of the input, provided \<^verbatim>\<open>Math.exp(0)\<close> is 1. (The sizes below 1 are kept away
  from \<open>gaussianBlur\<close> by its caller.)
\<close>

theorem gaussianBlur_size_one:
  assumes v: "validImage st img" and s: "2 powi (- 1075) < s * s" and e: "mexp 0 = 1"
  shows "gaussianBlur mexp st img 1 (Fin s) =
           Inr (\<lparr>width = width img, height = height img, data = length st\<rparr>,
                st @ [st ! data img])"
proof -
  define w h src where "w = width img" and "h = height img" and "src = st ! data img"
  have w: "0 < w" and len: "int (length src) = 4 * w * h"
    using v by (simp_all add: validImage_def w_def h_def src_def)
  have k: "buildKernel mexp 1 (Fin s) = Inr ([Fin 1], 0)" using s e by (rule buildKernel_size_one)
  have X: "convolveX (windowSum [Fin 1] 0) src w h = map (\<lambda>b. Fin (real (unat b))) src"
    by (rule convolveX_identity [OF len w]) (rule windowSum_unit)
  have Y: "convolveY (windowSum [Fin 1] 0) (map (\<lambda>b. Fin (real (unat b))) src) w h
             = map (\<lambda>b. Fin (real (unat b))) src"
    by (rule convolveY_identity [OF len w]) (rule windowSum_unit)
  show ?thesis
    using gaussianBlur_run [OF v k]
    unfolding w_def [symmetric] h_def [symmetric] src_def [symmetric] X Y map_toUint8Clamp_unat .
qed

theorem gaussianBlur_size_one_witness:
  "validImage [[10, 20, 30, 255]] \<lparr>width = 1, height = 1, data = 0\<rparr> \<and>
   2 powi (- 1075) < (1 :: real) * 1 \<and> exp (0 :: real) = 1 \<and>
   gaussianBlur exp [[10, 20, 30, 255]] \<lparr>width = 1, height = 1, data = 0\<rparr> 1 (Fin 1) =
     Inr (\<lparr>width = 1, height = 1, data = 1\<rparr>, [[10, 20, 30, 255], [10, 20, 30, 255]])"
proof -
  have v: "validImage [[10, 20, 30, 255]] \<lparr>width = 1, height = 1, data = 0\<rparr>"
    by (simp add: validImage_def)
  have s: "2 powi (- 1075) < (1 :: real) * 1" by (simp add: power_int_minus)
  show ?thesis
    using v s gaussianBlur_size_one [OF v s, where mexp = exp] by simp
qed

text \<open>
  Claim C5 as stated fails. With size 0 the kernel array is empty, every weight read is
  \<^verbatim>\<open>undefined\<close> and every sample of the result is 0; with a negative size the
  allocation of the kernel raises RangeError; with size 1 and \<open>sigma = 0\<close>, or with a
  \<open>sigma\<close> as small as \<open>2\<^sup>-\<^sup>6\<^sup>0\<^sup>0\<close>, whose square underflows to 0, the only weight is NaN
  and every sample of the result is 0.
\<close>

theorem gaussianBlur_size_below_one_counterexample:
  "gaussianBlur exp [[10, 20, 30, 255]] \<lparr>width = 1, height = 1, data = 0\<rparr> 0 (Fin 1) =
     Inr (\<lparr>width = 1, height = 1, data = 1\<rparr>, [[10, 20, 30, 255], [0, 0, 0, 0]]) \<and>
   gaussianBlur exp [[10, 20, 30, 255]] \<lparr>width = 1, height = 1, data = 0\<rparr> (- 1) (Fin 1) =
     Inl RangeError \<and>
   gaussianBlur exp [[10, 20, 30, 255]] \<lparr>width = 1, height = 1, data = 0\<rparr> 1 (Fin 0) =
     Inr (\<lparr>width = 1, height = 1, data = 1\<rparr>, [[10, 20, 30, 255], [0, 0, 0, 0]]) \<and>
   gaussianBlur exp [[10, 20, 30, 255]] \<lparr>width = 1, height = 1, data = 0\<rparr> 1 (Fin (2 powi (- 600))) =
     Inr (\<lparr>width = 1, height = 1, data = 1\<rparr>, [[10, 20, 30, 255], [0, 0, 0, 0]])"
proof -
  let ?img = "\<lparr>width = 1, height = 1, data = 0\<rparr>"
  have v: "validImage [[10, 20, 30, 255]] ?img"
    by (simp add: validImage_def)
  have r: "replicate (length [10, 20, 30, 255 :: 8 word]) (0 :: 8 word) = [0, 0, 0, 0]"
    by (simp add: numeral_eq_Suc)
  have k0: "buildKernel exp 0 (Fin 1) = Inr ([], 0)"
    by (simp add: buildKernel_closed)
  have n0: "f32_get [] (0 + 0) = NaN" by (simp add: f32_get_def ta_get_def)
  have a: "gaussianBlur exp [[10, 20, 30, 255]] ?img 0 (Fin 1) =
     Inr (\<lparr>width = 1, height = 1, data = 1\<rparr>, [[10, 20, 30, 255], [0, 0, 0, 0]])"
    using gaussianBlur_NaN_window [OF v k0 _ _ n0] r by simp
  have b: "gaussianBlur exp [[10, 20, 30, 255]] ?img (- 1) (Fin 1) = Inl RangeError"
    by (simp add: gaussianBlur_def buildKernel_negative)
  have c: "gaussianBlur exp [[10, 20, 30, 255]] ?img 1 (Fin 0) =
     Inr (\<lparr>width = 1, height = 1, data = 1\<rparr>, [[10, 20, 30, 255], [0, 0, 0, 0]])"
    using gaussianBlur_sigma_underflow [OF v, of 1 0 exp] r by simp
  have u: "(2::real) powi (- 600) * 2 powi (- 600) < 2 powi (- 1075)"
    by (simp add: power_int_minus)
  have d: "gaussianBlur exp [[10, 20, 30, 255]] ?img 1 (Fin (2 powi (- 600))) =
     Inr (\<lparr>width = 1, height = 1, data = 1\<rparr>, [[10, 20, 30, 255], [0, 0, 0, 0]])"
    using gaussianBlur_sigma_underflow [OF v _ u, of 1 exp] r by simp
  from a b c d show ?thesis by (intro conjI)
qed

section \<open>The blur is two clamped one-dimensional convolutions\<close>

text \<open>
  Claim C1, amended. For every well-formed RGBA image and every odd size greater than 1
  (and every \<open>sigma\<close>), \<open>gaussianBlur\<close> builds one kernel with \<open>buildKernel\<close> and returns a
  new image of the same dimensions whose samples are the 8-bit conversion of the vertical
  convolution \<open>convolveY\<close> of the buffer of 32-bit floats that the horizontal convolution
  \<open>convolveX\<close> of the input yields, both with that kernel and in double arithmetic; the
  intermediate buffer has the shape of the input. In \<open>convolveX\<close> the column and in
  \<open>convolveY\<close> the row of every sample is clamped: an index below 0 becomes 0, one above
  the last index becomes the last index.
\<close>

theorem gaussianBlur_two_passes:
  assumes "validImage st img" and "1 < sz" and "odd sz"
  shows "\<exists>ws radius.
           buildKernel mexp sz sigma = Inr (ws, radius) \<and>
           gaussianBlur mexp st img sz sigma =
             Inr (\<lparr>width = width img, height = height img, data = length st\<rparr>,
                  st @ [map toUint8Clamp
                          (convolveY (conv1d ws radius)
                             (convolveX (conv1d ws radius) (st ! data img) (width img) (height img))
                             (width img) (height img))]) \<and>
           length (convolveX (conv1d ws radius) (st ! data img) (width img) (height img))
             = length (st ! data img) \<and>
           (\<forall>v. clamp v 0 (width img - 1)
                  = (if v < 0 then 0 else if width img - 1 < v then width img - 1 else v)) \<and>
           (\<forall>v. clamp v 0 (height img - 1)
                  = (if v < 0 then 0 else if height img - 1 < v then height img - 1 else v))"
proof -
  from assms(2) obtain ws where k: "buildKernel mexp sz sigma = Inr (ws, sz div 2)"
    using buildKernel_total [where sz = sz and mexp = mexp and sigma = sigma] by auto
  have "length ws = nat sz" using buildKernel_length [OF k] by simp
  moreover have "sz = 2 * (sz div 2) + 1" using assms(3) by presburger
  ultimately have "int (length ws) = 2 * (sz div 2) + 1" using assms(2) by simp
  then have c: "windowSum ws (sz div 2) = conv1d ws (sz div 2)" by (rule windowSum_conv1d)
  have len: "length (convolveX (conv1d ws (sz div 2)) (st ! data img) (width img) (height img))
               = length (st ! data img)"
    using assms(1) by (auto simp: convolveX_length validImage_def)
  have "0 < width img" "0 < height img" using assms(1) by (simp_all add: validImage_def)
  then show ?thesis
    using k gaussianBlur_run [OF assms(1) k] len unfolding c by (auto simp: clamp_cases)
qed

theorem gaussianBlur_two_passes_witness:
  "validImage [[10, 20, 30, 255]] \<lparr>width = 1, height = 1, data = 0\<rparr> \<and> (1::int) < 3 \<and> odd (3::int) \<and>
   (\<exists>ws radius.
      buildKernel exp 3 (Fin (1 / 2)) = Inr (ws, radius) \<and>
      gaussianBlur exp [[10, 20, 30, 255]] \<lparr>width = 1, height = 1, data = 0\<rparr> 3 (Fin (1 / 2)) =
        Inr (\<lparr>width = 1, height = 1, data = 1\<rparr>,
             [[10, 20, 30, 255],
              map toUint8Clamp (convolveY (conv1d ws radius)
                                  (convolveX (conv1d ws radius) [10, 20, 30, 255] 1 1) 1 1)]))"
proof -
  have v: "validImage [[10, 20, 30, 255]] \<lparr>width = 1, height = 1, data = 0\<rparr>"
    by (simp add: validImage_def)
  show ?thesis
    using v gaussianBlur_two_passes [OF v, where sz = 3 and mexp = exp and sigma = "Fin (1 / 2)"]
    by auto
qed

lemma conv1d_01:
  assumes "\<And>k. \<exists>b'. sample k = Fin (real (unat (b' :: 8 word)))"
    and "sample 0 = Fin (real (unat (b :: 8 word)))"
  shows "conv1d [Fin 0, Fin 1] 1 sample = Fin (real (unat b))"
proof -
  from assms(1) obtain b' :: "8 word" where "sample (- 1) = Fin (real (unat b'))" by blast
  then show ?thesis
    by (simp add: conv1d_def upto_0_1 assms(2) toDouble_byte del: of_nat_unat)
qed

text \<open>
  Claim C1 as stated fails for an even size. The kernel that \<open>buildKernel\<close> returns for
  size 2 and \<open>sigma = 1 / 64\<close> holds the two weights 0 and 1, and the two convolutions
  with it leave the one-pixel image \<open>[10, 20, 30, 255]\<close> as it is; but the loops of the
  blur read a third weight at index 2, outside the kernel, so that every sum is NaN, and
  \<open>gaussianBlur\<close> returns the image \<open>[0, 0, 0, 0]\<close>. The same happens for every even size,
  every \<open>sigma\<close> and every image (\<open>gaussianBlur_even_size\<close>).
\<close>

theorem gaussianBlur_even_size_counterexample:
  "buildKernel exp 2 (Fin (1 / 64)) = Inr ([Fin 0, Fin 1], 1) \<and>
   gaussianBlur exp [[10, 20, 30, 255]] \<lparr>width = 1, height = 1, data = 0\<rparr> 2 (Fin (1 / 64)) =
     Inr (\<lparr>width = 1, height = 1, data = 1\<rparr>, [[10, 20, 30, 255], [0, 0, 0, 0]]) \<and>
   map toUint8Clamp (convolveY (conv1d [Fin 0, Fin 1] 1)
                       (convolveX (conv1d [Fin 0, Fin 1] 1) [10, 20, 30, 255] 1 1) 1 1)
     = [10, 20, 30, 255]"
proof -
  let ?img = "\<lparr>width = 1, height = 1, data = 0\<rparr>"
  let ?src = "[10, 20, 30, 255] :: 8 word list"
  have v: "validImage [?src] ?img" by (simp add: validImage_def)
  have r: "replicate (length ?src) (0 :: 8 word) = [0, 0, 0, 0]"
    by (simp add: numeral_eq_Suc)
  have code: "gaussianBlur exp [?src] ?img 2 (Fin (1 / 64)) =
     Inr (\<lparr>width = 1, height = 1, data = 1\<rparr>, [?src, [0, 0, 0, 0]])"
    using gaussianBlur_even_size [OF v, of 2 exp "Fin (1 / 64)"] r by simp
  have len: "int (length ?src) = 4 * 1 * 1" by simp
  have X: "convolveX (conv1d [Fin 0, Fin 1] 1) ?src 1 1 = map (\<lambda>b. Fin (real (unat b))) ?src"
    by (rule convolveX_identity [OF len]) (simp, rule conv1d_01)
  have Y: "convolveY (conv1d [Fin 0, Fin 1] 1) (map (\<lambda>b. Fin (real (unat b))) ?src) 1 1
             = map (\<lambda>b. Fin (real (unat b))) ?src"
    by (rule convolveY_identity [OF len]) (simp, rule conv1d_01)
  have spec: "map toUint8Clamp (convolveY (conv1d [Fin 0, Fin 1] 1)
                       (convolveX (conv1d [Fin 0, Fin 1] 1) ?src 1 1) 1 1) = ?src"
    unfolding X Y by (rule map_toUint8Clamp_unat)
  from buildKernel_2_64 code spec show ?thesis by (intro conjI)
qed


section \<open>The stages and the buffers of the store\<close>

text \<open>
  Claim C7, amended. For every well-formed input image: the blur with a size of at
  least 0 and the sharpen with an amount for which \<open>amount \<le> 0\<close> is false return a new
  image whose array is allocated by the call, at an address that is not the input's, and
  every array the store held before, the input's among them, is unchanged; the sharpen
  with \<open>amount \<le> 0\<close> returns the input image itself and the store as it was; the blur
  with a negative size raises RangeError and returns no image.
\<close>

theorem stages_allocate_result:
  assumes v: "validImage st img"
  shows "(if sz < 0 then gaussianBlur mexp st img sz sigma = Inl RangeError
          else \<exists>out. gaussianBlur mexp st img sz sigma =
                        Inr (\<lparr>width = width img, height = height img, data = length st\<rparr>,
                             st @ [out])) \<and>
         (if jsle amount (Fin 0) then sharpenImage st img amount = Inr (img, st)
          else \<exists>out. sharpenImage st img amount =
                        Inr (\<lparr>width = width img, height = height img, data = length st\<rparr>,
                             st @ [out])) \<and>
         data img \<noteq> length st \<and>
         (\<forall>out. (st @ [out]) ! data img = st ! data img)"
proof -
  have d: "data img < length st" using v by (simp add: validImage_def)
  have blur: "if sz < 0 then gaussianBlur mexp st img sz sigma = Inl RangeError
          else \<exists>out. gaussianBlur mexp st img sz sigma =
                        Inr (\<lparr>width = width img, height = height img, data = length st\<rparr>,
                             st @ [out])"
  proof (cases "sz < 0")
    case True
    then show ?thesis by (simp add: gaussianBlur_def buildKernel_negative)
  next
    case False
    then obtain ws where "buildKernel mexp sz sigma = Inr (ws, sz div 2)"
      using buildKernel_total [where sz = sz and mexp = mexp and sigma = sigma] by auto
    from gaussianBlur_run [OF v this] False show ?thesis by auto
  qed
  have sharp: "if jsle amount (Fin 0) then sharpenImage st img amount = Inr (img, st)
          else \<exists>out. sharpenImage st img amount =
                        Inr (\<lparr>width = width img, height = height img, data = length st\<rparr>,
                             st @ [out])"
  proof (cases "jsle amount (Fin 0)")
    case True
    then show ?thesis by (simp add: sharpenImage_def)
  next
    case False
    from sharpenImage_run [OF v False] False show ?thesis by auto
  qed
  from blur sharp d show ?thesis by (simp add: nth_append)
qed

theorem stages_allocate_result_witness:
  "validImage [[10, 20, 30, 255]] \<lparr>width = 1, height = 1, data = 0\<rparr> \<and>
   (\<exists>out. gaussianBlur exp [[10, 20, 30, 255]] \<lparr>width = 1, height = 1, data = 0\<rparr> 3 (Fin (1 / 2)) =
             Inr (\<lparr>width = 1, height = 1, data = 1\<rparr>, [[10, 20, 30, 255], out])) \<and>
   (\<exists>out. sharpenImage [[10, 20, 30, 255]] \<lparr>width = 1, height = 1, data = 0\<rparr> (Fin 1) =
             Inr (\<lparr>width = 1, height = 1, data = 1\<rparr>, [[10, 20, 30, 255], out]))"
proof -
  have v: "validImage [[10, 20, 30, 255]] \<lparr>width = 1, height = 1, data = 0\<rparr>"
    by (simp add: validImage_def)
  show ?thesis
    using v stages_allocate_result [OF v, where mexp = exp and sz = 3 and sigma = "Fin (1 / 2)" and amount = "Fin 1"] by simp
qed

text \<open>
  Claim C7 as stated fails: with the amount 0 the sharpen returns its input, the same
  array at the same address, and allocates nothing; with the size \<open>- 1\<close> the blur returns
  no buffer.
\<close>

theorem sharpenImage_returns_input_counterexample:
  "sharpenImage [[10, 20, 30, 255]] \<lparr>width = 1, height = 1, data = 0\<rparr> (Fin 0) =
     Inr (\<lparr>width = 1, height = 1, data = 0\<rparr>, [[10, 20, 30, 255]]) \<and>
   gaussianBlur exp [[10, 20, 30, 255]] \<lparr>width = 1, height = 1, data = 0\<rparr> (- 1) (Fin 1) =
     Inl RangeError"
  by (simp add: sharpenImage_def gaussianBlur_def buildKernel_negative)

section \<open>The pipeline\<close>

lemma newImageData_valid: "newImageData st a w h = Inr img \<Longrightarrow> validImage st img"
  by (auto simp: newImageData_def validImage_def deref_def split: if_splits)

lemma gaussianBlur_Inr_valid:
  "gaussianBlur mexp st img sz sigma = Inr (img', st') \<Longrightarrow> validImage st' img'"
  by (auto simp: gaussianBlur_def Let_def newUint8ClampedArray_def
      split: sum.splits prod.splits dest: newImageData_valid)

lemma sharpenImage_Inr_valid:
  "\<not> jsle amount (Fin 0) \<Longrightarrow> sharpenImage st img amount = Inr (img', st') \<Longrightarrow> validImage st' img'"
  by (auto simp: sharpenImage_def Let_def newUint8ClampedArray_def
      split: sum.splits prod.splits dest: newImageData_valid)

lemma filterBody_Inr:
  assumes "filterBody mexp p a = Inr a'"
  shows "status a' = ''Filter applied.'' \<and>
         (\<exists>orig img. originalImageData a = Some orig \<and> currentImageData a' = Some img \<and>
            outputCanvas a' = deref (heap a') (data img) \<and>
            (validImage (heap a') img \<or> img = orig \<and> heap a' = heap a))"
proof -
  obtain sz sigma sharpen where p: "p = (sz, sigma, sharpen)" by (cases p)
  from assms obtain orig where o: "originalImageData a = Some orig"
    by (auto simp: filterBody_def p split: option.splits)
  from assms o obtain blurred h1 where
    b: "(if 1 < sz then gaussianBlur mexp (heap a) orig sz sigma else Inr (orig, heap a)) = Inr (blurred, h1)"
    by (auto simp: filterBody_def p split: sum.splits)
  from assms o b obtain filtered h2 where
    f: "(if jslt (Fin 0) sharpen then sharpenImage h1 blurred sharpen else Inr (blurred, h1))
          = Inr (filtered, h2)"
    and a': "a' = a\<lparr>heap := h2, outputCanvas := deref h2 (data filtered),
                     currentImageData := Some filtered, status := ''Filter applied.''\<rparr>"
    by (auto simp: filterBody_def p split: sum.splits)
  have bv: "validImage h1 blurred \<or> blurred = orig \<and> h1 = heap a"
    using b gaussianBlur_Inr_valid by (auto split: if_splits)
  have "validImage h2 filtered \<or> filtered = orig \<and> h2 = heap a"
  proof (cases "jslt (Fin 0) sharpen")
    case True
    then have "sharpenImage h1 blurred sharpen = Inr (filtered, h2)" using f by simp
    then show ?thesis using sharpenImage_Inr_valid [OF jslt_not_jsle [OF True]] by blast
  next
    case False
    then show ?thesis using f bv by simp
  qed
  then show ?thesis using o by (auto simp: a')
qed

text \<open>
  Claim C8. Whatever the captured parameters and the state, the callback of
  \<open>runFilter\<close> ends normally with \<open>isProcessing\<close> reset. When the filtering raises an
  exception, the state is the state before the callback with only the status line
  changed to the failure message: the current image, the samples on the output canvas
  and the store are those from before. When it raises none, the current image and the
  canvas are those of the completed result, which is a well-formed image of the new store
  (or, when no stage ran, the original image itself).
\<close>

theorem filterFrame_recovers:
  "isProcessing (filterFrame mexp p a) = False \<and>
   (case filterBody mexp p a of
      Inl e \<Rightarrow>
        filterFrame mexp p a = a\<lparr>status := ''Filtering failed. Try smaller settings.'',
                             isProcessing := False\<rparr> \<and>
        currentImageData (filterFrame mexp p a) = currentImageData a \<and>
        outputCanvas (filterFrame mexp p a) = outputCanvas a \<and>
        heap (filterFrame mexp p a) = heap a
    | Inr a' \<Rightarrow>
        filterFrame mexp p a = a'\<lparr>isProcessing := False\<rparr> \<and>
        status a' = ''Filter applied.'' \<and>
        (\<exists>orig img. originalImageData a = Some orig \<and> currentImageData a' = Some img \<and>
           outputCanvas a' = deref (heap a') (data img) \<and>
           (validImage (heap a') img \<or> img = orig \<and> heap a' = heap a)))"
proof (cases "filterBody mexp p a")
  case (Inl e)
  then show ?thesis by (simp add: filterFrame_def)
next
  case (Inr a')
  then show ?thesis using filterBody_Inr [OF Inr] by (simp add: filterFrame_def)
qed

text \<open>
  The failure branch is taken, for instance, by an image whose array does not hold
  \<open>4 \<sqdot> width \<sqdot> height\<close> samples: the loops leave the length of every array as it
  is, and the constructor of the result raises.
\<close>

lemma st_set_lengths: "map length (st_set st a i v) = map length st"
  by (simp add: st_set_def u8_set_def map_update list_update_same_conv)

lemma fold_preserves:
  assumes "\<And>x s. g (f x s) = g s"
  shows "g (fold f xs s) = g s"
  by (induction xs arbitrary: s) (simp_all add: assms)

lemma blurPassY_lengths:
  "map length (blurPassY temp w h ws radius output st0) = map length st0"
  unfolding blurPassY_def
  by (intro fold_preserves) (simp add: st_set_lengths Let_def split: prod.splits)

lemma gaussianBlur_malformed:
  assumes "0 \<le> sz"
    and "int (length (deref st (data img))) \<noteq> 4 * width img * height img"
  shows "gaussianBlur mexp st img sz sigma = Inl DOMException"
proof -
  from assms(1) obtain ws where k: "buildKernel mexp sz sigma = Inr (ws, sz div 2)"
    using buildKernel_total [where sz = sz and mexp = mexp and sigma = sigma] by auto
  define st0 where "st0 = st @ [replicate (length (deref st (data img))) (0 :: 8 word)]"
  define st1 where
    "st1 = blurPassY (blurPassX st0 (data img) (width img) (height img) ws (sz div 2)
                        (replicate (length (deref st (data img))) (Fin 0)))
             (width img) (height img) ws (sz div 2) (length st) st0"
  have "map length st1 = map length st0" unfolding st1_def by (rule blurPassY_lengths)
  then have "length st1 = length st0" "length (st1 ! length st) = length (st0 ! length st)"
    by (metis length_map, metis length_map nth_map st0_def length_append_singleton lessI)
  then have "length (deref st1 (length st)) = length (deref st (data img))"
    by (simp add: deref_def st0_def)
  then have "newImageData st1 (length st) (width img) (height img) = Inl DOMException"
    using assms(2) by (simp add: newImageData_def)
  then show ?thesis
    by (simp add: gaussianBlur_def k Let_def newUint8ClampedArray_def st0_def [symmetric]
        st1_def [symmetric])
qed

theorem filterFrame_recovers_witness:
  "filterBody exp (3, Fin (1 / 2), Fin 0)
     \<lparr>heap = [[10, 20, 30]], originalImageData = Some \<lparr>width = 1, height = 1, data = 0\<rparr>,
      currentImageData = None, isProcessing = True, kernelSizeValue = 3,
      sharpenAmountValue = Fin 0, outputCanvas = [], status = ''Filtering...''\<rparr>
     = Inl DOMException \<and>
   filterFrame exp (3, Fin (1 / 2), Fin 0)
     \<lparr>heap = [[10, 20, 30]], originalImageData = Some \<lparr>width = 1, height = 1, data = 0\<rparr>,
      currentImageData = None, isProcessing = True, kernelSizeValue = 3,
      sharpenAmountValue = Fin 0, outputCanvas = [], status = ''Filtering...''\<rparr>
     = \<lparr>heap = [[10, 20, 30]], originalImageData = Some \<lparr>width = 1, height = 1, data = 0\<rparr>,
        currentImageData = None, isProcessing = False, kernelSizeValue = 3,
        sharpenAmountValue = Fin 0, outputCanvas = [],
        status = ''Filtering failed. Try smaller settings.''\<rparr>"
proof -
  let ?a = "\<lparr>heap = [[10, 20, 30]], originalImageData = Some \<lparr>width = 1, height = 1, data = 0\<rparr>,
      currentImageData = None, isProcessing = True, kernelSizeValue = 3,
      sharpenAmountValue = Fin 0, outputCanvas = [], status = ''Filtering...''\<rparr>"
  have "gaussianBlur exp [[10, 20, 30]] \<lparr>width = 1, height = 1, data = 0\<rparr> 3 (Fin (1 / 2))
          = Inl DOMException"
    by (rule gaussianBlur_malformed) (simp_all add: deref_def)
  then have b: "filterBody exp (3, Fin (1 / 2), Fin 0) ?a = Inl DOMException"
    by (simp add: filterBody_def)
  show ?thesis
    using filterFrame_recovers [where mexp = exp and p = "(3, Fin (1 / 2), Fin 0)" and a = ?a] b by simp
qed

lemma gaussianBlur_succeeds:
  assumes v: "validImage st img" and sz: "0 \<le> sz"
  shows "\<exists>blurred h1. gaussianBlur mexp st img sz sigma = Inr (blurred, h1) \<and> validImage h1 blurred"
proof -
  from sz obtain ws where "buildKernel mexp sz sigma = Inr (ws, sz div 2)"
    using buildKernel_total [where sz = sz and mexp = mexp and sigma = sigma] by auto
  from gaussianBlur_run [OF v this] show ?thesis
    using gaussianBlur_Inr_valid by blast
qed

lemma sharpenImage_succeeds:
  assumes v: "validImage st img"
  shows "\<exists>sharpened h2. sharpenImage st img amount = Inr (sharpened, h2)"
proof (cases "jsle amount (Fin 0)")
  case True
  then show ?thesis by (simp add: sharpenImage_def)
next
  case False
  from sharpenImage_run [OF v False] show ?thesis by blast
qed

text \<open>
  Claim C4. With an image loaded, no run in progress and the image well-formed:
  when \<open>kernelSize \<le> 1\<close> and \<open>sharpenAmount \<le> 0\<close>, \<open>runFilter\<close> makes the original
  image the current one and shows it, the store unchanged (nothing is allocated);
  otherwise it runs, with \<open>sigma = max 0.15 (kernelSize / 6)\<close>, the blur exactly when
  \<open>kernelSize > 1\<close> (the original image is passed on otherwise), then the sharpen on the
  result of that step exactly when \<open>sharpenAmount > 0\<close> (that result is passed on
  otherwise), and makes the final image the current one and shows it.
\<close>

theorem runFilter_pipeline:
  assumes o: "originalImageData a = Some orig" and np: "\<not> isProcessing a"
    and v: "validImage (heap a) orig"
  shows "if kernelSizeValue a \<le> 1 \<and> jsle (sharpenAmountValue a) (Fin 0)
         then runFilterAndFrame mexp a =
                a\<lparr>outputCanvas := heap a ! data orig, currentImageData := Some orig\<rparr>
         else \<exists>blurred h1 filtered h2.
                (if 1 < kernelSizeValue a
                 then gaussianBlur mexp (heap a) orig (kernelSizeValue a)
                        (jsmax (toDouble (15 / 100)) (jsdiv (Fin (of_int (kernelSizeValue a))) (Fin 6)))
                      = Inr (blurred, h1)
                 else blurred = orig \<and> h1 = heap a) \<and>
                (if jslt (Fin 0) (sharpenAmountValue a)
                 then sharpenImage h1 blurred (sharpenAmountValue a) = Inr (filtered, h2)
                 else filtered = blurred \<and> h2 = h1) \<and>
                runFilterAndFrame mexp a =
                  a\<lparr>heap := h2, outputCanvas := h2 ! data filtered,
                    currentImageData := Some filtered, status := ''Filter applied.''\<rparr>"
proof (cases "kernelSizeValue a \<le> 1 \<and> jsle (sharpenAmountValue a) (Fin 0)")
  case True
  have "data orig < length (heap a)" using v by (simp add: validImage_def)
  then show ?thesis
    using True o np by (simp add: runFilterAndFrame_def runFilter_def deref_def)
next
  case False
  define sz sharpen where "sz = kernelSizeValue a" and "sharpen = sharpenAmountValue a"
  define a1 where "a1 = a\<lparr>isProcessing := True, status := ''Filtering...''\<rparr>"
  have run: "runFilterAndFrame mexp a = filterFrame mexp (sz, formatKernel sz, sharpen) a1"
    using False o np
    by (auto simp: runFilterAndFrame_def runFilter_def Let_def sz_def sharpen_def a1_def)
  obtain blurred h1 where
    b: "if 1 < sz then gaussianBlur mexp (heap a) orig sz (formatKernel sz) = Inr (blurred, h1)
        else blurred = orig \<and> h1 = heap a"
    and bv: "validImage h1 blurred"
  proof (cases "1 < sz")
    case True
    then have "0 \<le> sz" by simp
    from gaussianBlur_succeeds [OF v this, where mexp = mexp and sigma = "formatKernel sz"] True that show ?thesis by auto
  next
    case False
    then show ?thesis using that [of orig "heap a"] v by simp
  qed
  obtain filtered h2 where
    f: "if jslt (Fin 0) sharpen then sharpenImage h1 blurred sharpen = Inr (filtered, h2)
        else filtered = blurred \<and> h2 = h1"
    and fv: "validImage h2 filtered"
  proof (cases "jslt (Fin 0) sharpen")
    case True
    from sharpenImage_succeeds [OF bv, of sharpen] obtain s h where
      s: "sharpenImage h1 blurred sharpen = Inr (s, h)" by blast
    then have "validImage h s" by (rule sharpenImage_Inr_valid [OF jslt_not_jsle [OF True]])
    with s True that show ?thesis by auto
  next
    case False
    then show ?thesis using that [of blurred h1] bv by simp
  qed
  have body: "filterBody mexp (sz, formatKernel sz, sharpen) a1 =
                Inr (a1\<lparr>heap := h2, outputCanvas := deref h2 (data filtered),
                        currentImageData := Some filtered, status := ''Filter applied.''\<rparr>)"
    using o b f by (auto simp: filterBody_def a1_def split: if_splits)
  have dv: "deref h2 (data filtered) = h2 ! data filtered"
    using fv by (simp add: validImage_def deref_def)
  have "runFilterAndFrame mexp a =
          (a1\<lparr>heap := h2, outputCanvas := deref h2 (data filtered),
              currentImageData := Some filtered, status := ''Filter applied.''\<rparr>)
            \<lparr>isProcessing := False\<rparr>"
    by (simp only: run filterFrame_def body sum.case)
  then have "runFilterAndFrame mexp a =
               a\<lparr>heap := h2, outputCanvas := h2 ! data filtered,
                 currentImageData := Some filtered, status := ''Filter applied.''\<rparr>"
    using np by (cases a) (simp add: a1_def dv)
  with b f False show ?thesis
    unfolding sz_def sharpen_def formatKernel_def by (simp only: if_False) blast
qed

theorem runFilter_pipeline_witness:
  "originalImageData
     \<lparr>heap = [[10, 20, 30, 255]], originalImageData = Some \<lparr>width = 1, height = 1, data = 0\<rparr>,
      currentImageData = None, isProcessing = False, kernelSizeValue = 1,
      sharpenAmountValue = Fin 0, outputCanvas = [], status = []\<rparr>
     = Some \<lparr>width = 1, height = 1, data = 0\<rparr> \<and>
   validImage [[10, 20, 30, 255]] \<lparr>width = 1, height = 1, data = 0\<rparr> \<and>
   runFilterAndFrame exp
     \<lparr>heap = [[10, 20, 30, 255]], originalImageData = Some \<lparr>width = 1, height = 1, data = 0\<rparr>,
      currentImageData = None, isProcessing = False, kernelSizeValue = 1,
      sharpenAmountValue = Fin 0, outputCanvas = [], status = []\<rparr>
     = \<lparr>heap = [[10, 20, 30, 255]], originalImageData = Some \<lparr>width = 1, height = 1, data = 0\<rparr>,
        currentImageData = Some \<lparr>width = 1, height = 1, data = 0\<rparr>, isProcessing = False,
        kernelSizeValue = 1, sharpenAmountValue = Fin 0, outputCanvas = [10, 20, 30, 255],
        status = []\<rparr> \<and>
   (\<exists>blurred h1 filtered h2.
      gaussianBlur exp [[10, 20, 30, 255]] \<lparr>width = 1, height = 1, data = 0\<rparr> 3
          (jsmax (toDouble (15 / 100)) (jsdiv (Fin 3) (Fin 6)))
        = Inr (blurred, h1) \<and>
      sharpenImage h1 blurred (Fin 1) = Inr (filtered, h2) \<and>
      runFilterAndFrame exp
        \<lparr>heap = [[10, 20, 30, 255]], originalImageData = Some \<lparr>width = 1, height = 1, data = 0\<rparr>,
         currentImageData = None, isProcessing = False, kernelSizeValue = 3,
         sharpenAmountValue = Fin 1, outputCanvas = [], status = []\<rparr>
        = \<lparr>heap = h2, originalImageData = Some \<lparr>width = 1, height = 1, data = 0\<rparr>,
           currentImageData = Some filtered, isProcessing = False, kernelSizeValue = 3,
           sharpenAmountValue = Fin 1, outputCanvas = h2 ! data filtered,
           status = ''Filter applied.''\<rparr>)"
proof -
  let ?img = "\<lparr>width = 1, height = 1, data = 0\<rparr>"
  let ?a = "\<lambda>k s. \<lparr>heap = [[10, 20, 30, 255]], originalImageData = Some ?img,
      currentImageData = None, isProcessing = False, kernelSizeValue = k,
      sharpenAmountValue = s, outputCanvas = [], status = []\<rparr>"
  have v: "validImage [[10, 20, 30, 255]] ?img" by (simp add: validImage_def)
  have fast: "runFilterAndFrame exp (?a 1 (Fin 0)) =
                (?a 1 (Fin 0))\<lparr>outputCanvas := [10, 20, 30, 255], currentImageData := Some ?img\<rparr>"
    using runFilter_pipeline [where a = "?a 1 (Fin 0)" and orig = ?img and mexp = exp] v by simp
  have slow: "\<exists>blurred h1 filtered h2.
      gaussianBlur exp [[10, 20, 30, 255]] ?img 3
          (jsmax (toDouble (15 / 100)) (jsdiv (Fin 3) (Fin 6))) = Inr (blurred, h1) \<and>
      sharpenImage h1 blurred (Fin 1) = Inr (filtered, h2) \<and>
      runFilterAndFrame exp (?a 3 (Fin 1)) =
        (?a 3 (Fin 1))\<lparr>heap := h2, outputCanvas := h2 ! data filtered,
           currentImageData := Some filtered, status := ''Filter applied.''\<rparr>"
    using runFilter_pipeline [where a = "?a 3 (Fin 1)" and orig = ?img and mexp = exp] v by simp
  from v fast slow show ?thesis by simp
qed

end
